theory Spec2Isabelle
  imports Complex_Main "HOL-Library.Sublist"
begin

section \<open>Callsites and the redirect map\<close>

text \<open>
  A callsite of the heap profile flamegraph, with the five fields that \<open>copyCallsite\<close>
  of \<open>controller.ts\<close> copies. The controller fills every numeric field from a
  SQL column of long values, so the fields hold integers. A JavaScript number is a
  double: it holds every integer up to \<open>2 ^ 53 = 9007199254740992\<close> in absolute
  value, and the sum of two numbers is rounded to the nearest double (\<open>jsAdd\<close>
  below). The threshold \<open>minSizeDisplayed\<close> is a quotient (root size by visible
  width), hence a rational.
\<close>

record CallsiteInfo =
  hash :: int
  parentHash :: int
  depth :: int
  name :: string
  totalSize :: int

text \<open>
  Reading a property of \<open>undefined\<close> throws a \<open>TypeError\<close>; it is the only way
  \<open>mergeCallsites\<close> could fail.
\<close>

datatype error = TypeError

text \<open>The \<open>Map<number, number>\<close> named \<open>mergedCallsites\<close>: hash of a merged
  callsite to the hash of the callsite it was merged into.\<close>

type_synonym redirects = "int \<rightharpoonup> int"

text \<open>\<open>data[i]\<close>: an index past the end of a JavaScript array reads \<open>undefined\<close>.\<close>

definition elemAt :: "'a list \<Rightarrow> nat \<Rightarrow> 'a option" where
  "elemAt data i = (if i < length data then Some (data ! i) else None)"

definition copyCallsite :: "CallsiteInfo \<Rightarrow> CallsiteInfo" where
  "copyCallsite callsite =
     \<lparr>hash = hash callsite, parentHash = parentHash callsite, depth = depth callsite,
      name = name callsite, totalSize = totalSize callsite\<rparr>"

definition getCallsitesParentHash :: "CallsiteInfo \<Rightarrow> redirects \<Rightarrow> int" where
  "getCallsitesParentHash callsite m =
     (if m (parentHash callsite) \<noteq> None then the (m (parentHash callsite))
      else parentHash callsite)"

text \<open>\<open>callsite.totalSize <= minSizeDisplayed\<close>\<close>

abbreviation small :: "rat \<Rightarrow> CallsiteInfo \<Rightarrow> bool" where
  "small minSizeDisplayed callsite \<equiv> of_int (totalSize callsite) \<le> minSizeDisplayed"

text \<open>
  \<open>+\<close> on numbers that hold integers. Doubles have 53 significant bits:
  \<open>ulp n\<close> is the distance between neighbouring doubles at the magnitude \<open>n\<close>
  (1 below \<open>2 ^ 53\<close>, 2 from there to \<open>2 ^ 54\<close>, and so on), and the exact sum is
  rounded to the nearest multiple of it, a tie going to the even significand. Sums are
  exact as long as they stay within \<open>2 ^ 53\<close> in absolute value. Sizes beyond the
  largest finite double (about \<open>1.8e308\<close>) are outside this model.
\<close>

function ulp :: "nat \<Rightarrow> nat" where
  "ulp n = (if n < 9007199254740992 then 1 else 2 * ulp (n div 2))"
  by pat_completeness auto
termination
  by (relation "measure (\<lambda>n. n)") auto

declare ulp.simps [simp del]

definition roundNearestEven :: "nat \<Rightarrow> nat \<Rightarrow> nat" where
  "roundNearestEven q a =
     (let lo = (a div q) * q; r = a mod q
      in if 2 * r < q then lo
         else if q < 2 * r then lo + q
         else if even (a div q) then lo else lo + q)"

definition roundDouble :: "int \<Rightarrow> int" where
  "roundDouble n =
     (if n < 0 then - int (roundNearestEven (ulp (nat (- n))) (nat (- n)))
      else int (roundNearestEven (ulp (nat n)) (nat n)))"

definition jsAdd :: "int \<Rightarrow> int \<Rightarrow> int" where
  "jsAdd a b = roundDouble (a + b)"

section \<open>mergeCallsites\<close>

text \<open>
  The inner \<open>while\<close> loop (lines 55 to 64). Its state is the index \<open>j\<close>, the peeked
  element \<open>nextCallsite = data[j]\<close> (possibly \<open>undefined\<close>), the copy under
  construction and the redirect map. The guard \<open>j < data.length\<close> is evaluated before
  \<open>nextCallsite.depth\<close> is read; reading it from \<open>undefined\<close> is the error branch.
\<close>

function mergeWhile ::
  "CallsiteInfo list \<Rightarrow> rat \<Rightarrow> nat \<Rightarrow> CallsiteInfo option \<Rightarrow> CallsiteInfo \<Rightarrow> redirects
     \<Rightarrow> error + (CallsiteInfo \<times> redirects)" where
  "mergeWhile data minSizeDisplayed j nextCallsite copiedCallsite mergedCallsites =
     (if j < length data then
        (case nextCallsite of
           None \<Rightarrow> Inl TypeError
         | Some nc \<Rightarrow>
             if depth copiedCallsite = depth nc then
               (if parentHash copiedCallsite = getCallsitesParentHash nc mergedCallsites
                    \<and> small minSizeDisplayed nc
                then mergeWhile data minSizeDisplayed (j + 1) (elemAt data (j + 1))
                       (copiedCallsite\<lparr>totalSize := jsAdd (totalSize copiedCallsite) (totalSize nc)\<rparr>)
                       (mergedCallsites(hash nc \<mapsto> hash copiedCallsite))
                else mergeWhile data minSizeDisplayed (j + 1) (elemAt data (j + 1))
                       copiedCallsite mergedCallsites)
             else Inr (copiedCallsite, mergedCallsites))
      else Inr (copiedCallsite, mergedCallsites))"
  by pat_completeness auto
termination
  by (relation "measure (\<lambda>(data, ms, j, nc, c, m). length data - j)") auto

declare mergeWhile.simps [simp del]

text \<open>
  One iteration of the outer \<open>for\<close> loop (lines 40 to 66) at index \<open>i\<close>, on the
  state \<open>(mergedData, mergedCallsites)\<close>. The \<open>continue\<close> of line 44 leaves the
  state as it is.
\<close>

definition forBody ::
  "CallsiteInfo list \<Rightarrow> rat \<Rightarrow> nat \<Rightarrow> CallsiteInfo list \<times> redirects
     \<Rightarrow> error + (CallsiteInfo list \<times> redirects)" where
  "forBody data minSizeDisplayed i st =
     (case st of (mergedData, mergedCallsites) \<Rightarrow>
        (case elemAt data i of
           None \<Rightarrow> Inl TypeError
         | Some di \<Rightarrow>
             if mergedCallsites (hash di) \<noteq> None then Inr (mergedData, mergedCallsites)
             else
               (let c0 = copyCallsite di;
                    copiedCallsite =
                      c0\<lparr>parentHash := getCallsitesParentHash c0 mergedCallsites\<rparr>
                in if small minSizeDisplayed copiedCallsite \<and> i + 1 < length data
                   then (case mergeWhile data minSizeDisplayed (i + 1) (elemAt data (i + 1))
                                copiedCallsite mergedCallsites of
                           Inl e \<Rightarrow> Inl e
                         | Inr (c, m) \<Rightarrow> Inr (mergedData @ [c], m))
                   else Inr (mergedData @ [copiedCallsite], mergedCallsites))))"

function mergeFor ::
  "CallsiteInfo list \<Rightarrow> rat \<Rightarrow> nat \<Rightarrow> CallsiteInfo list \<times> redirects
     \<Rightarrow> error + (CallsiteInfo list \<times> redirects)" where
  "mergeFor data minSizeDisplayed i st =
     (if i < length data then
        (case forBody data minSizeDisplayed i st of
           Inl e \<Rightarrow> Inl e
         | Inr st' \<Rightarrow> mergeFor data minSizeDisplayed (i + 1) st')
      else Inr st)"
  by pat_completeness auto
termination
  by (relation "measure (\<lambda>(data, ms, i, st). length data - i)") auto

declare mergeFor.simps [simp del]

text \<open>\<open>mergeCallsites\<close> returns \<open>mergedData\<close>; the redirect map is dropped.\<close>

definition mergeCallsites :: "CallsiteInfo list \<Rightarrow> rat \<Rightarrow> error + CallsiteInfo list" where
  "mergeCallsites data minSizeDisplayed =
     (case mergeFor data minSizeDisplayed 0 ([], Map.empty) of
        Inl e \<Rightarrow> Inl e
      | Inr (mergedData, mergedCallsites) \<Rightarrow> Inr mergedData)"

text \<open>The redirect map as it stands when \<open>mergeCallsites\<close> returns.\<close>

definition finalRedirects :: "CallsiteInfo list \<Rightarrow> rat \<Rightarrow> redirects" where
  "finalRedirects data minSizeDisplayed =
     (case mergeFor data minSizeDisplayed 0 ([], Map.empty) of
        Inl e \<Rightarrow> Map.empty
      | Inr (mergedData, mergedCallsites) \<Rightarrow> mergedCallsites)"

section \<open>The loops as recursion over the rest of the array\<close>

text \<open>
  For the proofs the two loops are restated over the part of the array still ahead of
  the index: \<open>scanRun\<close> is the \<open>while\<close> loop on \<open>drop j data\<close>, \<open>mergeRest\<close> the
  \<open>for\<close> loop on \<open>drop i data\<close>, returning what is appended to \<open>mergedData\<close> and
  the final map. The lemmas \<open>mergeWhile_scanRun\<close> and \<open>mergeFor_mergeRest\<close> show that
  they compute what the loops compute.
\<close>

fun scanRun :: "rat \<Rightarrow> CallsiteInfo \<Rightarrow> redirects \<Rightarrow> CallsiteInfo list
                  \<Rightarrow> CallsiteInfo \<times> redirects" where
  "scanRun ms c m [] = (c, m)"
| "scanRun ms c m (x # xs) =
     (if depth c = depth x then
        (if parentHash c = getCallsitesParentHash x m \<and> small ms x
         then scanRun ms (c\<lparr>totalSize := jsAdd (totalSize c) (totalSize x)\<rparr>)
                (m(hash x \<mapsto> hash c)) xs
         else scanRun ms c m xs)
      else (c, m))"

fun mergeRest :: "rat \<Rightarrow> redirects \<Rightarrow> CallsiteInfo list \<Rightarrow> CallsiteInfo list \<times> redirects" where
  "mergeRest ms m [] = ([], m)"
| "mergeRest ms m (x # xs) =
     (if m (hash x) \<noteq> None then mergeRest ms m xs
      else if small ms x
      then (case scanRun ms (x\<lparr>parentHash := getCallsitesParentHash x m\<rparr>) m xs of
              (c, m') \<Rightarrow> (case mergeRest ms m' xs of (out, mf) \<Rightarrow> (c # out, mf)))
      else (case mergeRest ms m xs of
              (out, mf) \<Rightarrow> (x\<lparr>parentHash := getCallsitesParentHash x m\<rparr> # out, mf)))"

text \<open>What one iteration of the \<open>for\<close> loop does, in terms of \<open>scanRun\<close>.\<close>

definition bodyResult :: "rat \<Rightarrow> CallsiteInfo \<Rightarrow> CallsiteInfo list
     \<Rightarrow> CallsiteInfo list \<times> redirects \<Rightarrow> CallsiteInfo list \<times> redirects" where
  "bodyResult ms x xs st =
     (case st of (out, m) \<Rightarrow>
        if m (hash x) \<noteq> None then (out, m)
        else if small ms x
        then (case scanRun ms (x\<lparr>parentHash := getCallsitesParentHash x m\<rparr>) m xs of
                (c, m') \<Rightarrow> (out @ [c], m'))
        else (out @ [x\<lparr>parentHash := getCallsitesParentHash x m\<rparr>], m))"

text \<open>
  The state of the \<open>for\<close> loop when it reaches index \<open>i\<close>: the result of the
  first \<open>i\<close> iterations on the initial state (\<open>mergedData\<close> empty, no redirect).
\<close>

primrec stateAt :: "CallsiteInfo list \<Rightarrow> rat \<Rightarrow> nat
     \<Rightarrow> error + (CallsiteInfo list \<times> redirects)" where
  "stateAt data ms 0 = Inr ([], Map.empty)"
| "stateAt data ms (Suc i) =
     (case stateAt data ms i of Inl e \<Rightarrow> Inl e | Inr st \<Rightarrow> forBody data ms i st)"

text \<open>
  \<open>emittedAt data ms k c\<close>: the node \<open>c\<close> is pushed as element \<open>k\<close> of
  \<open>mergedData\<close> by the iteration at some index \<open>i\<close>, as the copy of \<open>data[i]\<close>
  with the parent hash resolved in the redirect map of that moment.
\<close>

definition emittedAt :: "CallsiteInfo list \<Rightarrow> rat \<Rightarrow> nat \<Rightarrow> CallsiteInfo \<Rightarrow> bool" where
  "emittedAt data ms k c =
     (\<exists>i mergedData mergedCallsites.
        i < length data \<and> stateAt data ms i = Inr (mergedData, mergedCallsites)
        \<and> length mergedData = k \<and> mergedCallsites (hash (data ! i)) = None
        \<and> hash c = hash (data ! i) \<and> depth c = depth (data ! i) \<and> name c = name (data ! i)
        \<and> parentHash c = getCallsitesParentHash (data ! i) mergedCallsites
        \<and> dom mergedCallsites \<subseteq> hash ` set data)"

section \<open>Conditions on the input\<close>

text \<open>The callsites come from a query that groups by hash: one record per hash.\<close>

definition distinctHashes :: "CallsiteInfo list \<Rightarrow> bool" where
  "distinctHashes data = distinct (map hash data)"

text \<open>The query orders by depth first, so the depths never decrease along the array.\<close>

definition sortedByDepth :: "CallsiteInfo list \<Rightarrow> bool" where
  "sortedByDepth data = sorted (map depth data)"

text \<open>
  In a call tree a record whose hash is some record's \<open>parentHash\<close> lies at a smaller
  depth than that record. \<open>noParentAtSameDepth\<close> is the weaker condition that it does
  not lie at the same depth.
\<close>

definition parentsShallower :: "CallsiteInfo list \<Rightarrow> bool" where
  "parentsShallower data =
     (\<forall>x \<in> set data. \<forall>z \<in> set data. hash z = parentHash x \<longrightarrow> depth z < depth x)"

definition noParentAtSameDepth :: "CallsiteInfo list \<Rightarrow> bool" where
  "noParentAtSameDepth data =
     (\<forall>x \<in> set data. \<forall>z \<in> set data. depth z = depth x \<longrightarrow> hash z \<noteq> parentHash x)"

text \<open>
  The absolute values of the sizes add up to at most \<open>2 ^ 53\<close>: then every sum of
  sizes of different records is a double, and each addition of line 59 is exact.
\<close>

definition exactlyAddable :: "CallsiteInfo list \<Rightarrow> bool" where
  "exactlyAddable data = (sum_list (map (\<lambda>x. \<bar>totalSize x\<bar>) data) \<le> 9007199254740992)"

text \<open>
  A sequence is threshold-satisfying when each node is larger than the threshold or is
  the only node of its depth and parent hash.
\<close>

definition thresholdSatisfying :: "rat \<Rightarrow> CallsiteInfo list \<Rightarrow> bool" where
  "thresholdSatisfying ms data =
     (\<forall>i \<in> {..<length data}. \<not> small ms (data ! i) \<or>
        (\<forall>j \<in> {..<length data}. j \<noteq> i \<longrightarrow>
           \<not> (depth (data ! j) = depth (data ! i) \<and> parentHash (data ! j) = parentHash (data ! i))))"

text \<open>Example inputs: \<open>site h p d t\<close> has hash \<open>h\<close>, parent hash \<open>p\<close>,
  depth \<open>d\<close> and size \<open>t\<close>.\<close>

definition site :: "int \<Rightarrow> int \<Rightarrow> int \<Rightarrow> int \<Rightarrow> CallsiteInfo" where
  "site h p d t = \<lparr>hash = h, parentHash = p, depth = d, name = ''f'', totalSize = t\<rparr>"

text \<open>The input records whose hash is not a key of the final redirect map.\<close>

definition survivors :: "CallsiteInfo list \<Rightarrow> rat \<Rightarrow> CallsiteInfo list" where
  "survivors data ms = filter (\<lambda>x. finalRedirects data ms (hash x) = None) data"

text \<open>Scenario 2 of the specification: siblings of sizes 5, 1 and 1, threshold 2.\<close>

definition scenario2 :: "CallsiteInfo list" where
  "scenario2 = [site 1 0 1 5, site 2 0 1 1, site 3 0 1 1]"

text \<open>Two records with the same hash 1, the second one small.\<close>

definition repeatedHash :: "CallsiteInfo list" where
  "repeatedHash = [site 1 7 0 5, site 2 7 0 1, site 1 7 0 1]"

text \<open>
  Scenario 5 of the specification: the depth-1 callsites 1 and 2 merge, so the depth-2
  callsites 4 and 5, children of 2, are seen under the parent 1 from then on.
\<close>

definition scenario5 :: "CallsiteInfo list" where
  "scenario5 =
     [site 100 (-1) 0 10, site 1 100 1 1, site 2 100 1 1,
      site 3 1 2 1, site 4 2 2 1, site 5 2 2 7]"

definition scenario5Merged :: "CallsiteInfo list" where
  "scenario5Merged =
     [site 100 (-1) 0 10, site 1 100 1 2, site 3 1 2 2, site 5 1 2 7]"

text \<open>A sequence as a merge with threshold 2 leaves it: the one small node is alone
  under its parent.\<close>

definition mergedExample :: "CallsiteInfo list" where
  "mergedExample =
     [site 10 (-1) 0 9, site 1 10 1 5, site 2 10 1 4, site 3 1 2 1]"

section \<open>Notions for the proofs\<close>

text \<open>
  The run scanned by the \<open>while\<close> loop: the leading records of depth \<open>d\<close>. Its
  candidates: those of them that are small and whose effective parent is \<open>p\<close>.
  \<open>redirectAll m cs h\<close> is the map \<open>m\<close> with every hash of \<open>cs\<close> redirected to
  \<open>h\<close>.
\<close>

definition sameRun :: "int \<Rightarrow> CallsiteInfo list \<Rightarrow> CallsiteInfo list" where
  "sameRun d xs = takeWhile (\<lambda>x. depth x = d) xs"

definition candidates :: "rat \<Rightarrow> int \<Rightarrow> redirects \<Rightarrow> int \<Rightarrow> CallsiteInfo list \<Rightarrow> CallsiteInfo list" where
  "candidates ms p m d xs =
     filter (\<lambda>x. getCallsitesParentHash x m = p \<and> small ms x) (sameRun d xs)"

definition redirectAll :: "redirects \<Rightarrow> CallsiteInfo list \<Rightarrow> int \<Rightarrow> redirects" where
  "redirectAll m cs h = (\<lambda>k. if k \<in> hash ` set cs then Some h else m k)"

text \<open>
  The invariant of the \<open>for\<close> loop that rules out merging a record twice: a record
  ahead that is already merged lies in the current run, and no record before it that is
  small and not merged has its effective parent.
\<close>

definition scanInv :: "rat \<Rightarrow> redirects \<Rightarrow> CallsiteInfo list \<Rightarrow> bool" where
  "scanInv ms m xs =
     (\<forall>j < length xs. \<forall>k < j. m (hash (xs ! j)) \<noteq> None \<longrightarrow>
        depth (xs ! k) = depth (xs ! j)
        \<and> (small ms (xs ! k) \<and> m (hash (xs ! k)) = None \<longrightarrow>
             getCallsitesParentHash (xs ! k) m \<noteq> getCallsitesParentHash (xs ! j) m))"


text \<open>Two siblings whose sizes add up to \<open>2 ^ 53 + 1\<close>, which is no double.\<close>

definition roundedSum :: "CallsiteInfo list" where
  "roundedSum = [site 1 0 1 9007199254740992, site 2 0 1 1]"

text \<open>A large callsite whose parent, at its own depth, is merged after it is emitted.\<close>

definition parentMergedLater :: "CallsiteInfo list" where
  "parentMergedLater = [site 10 2 0 100, site 1 (-1) 0 1, site 2 (-1) 0 1]"

text \<open>Callsites all at depth 0 whose parents are among themselves.\<close>

definition sameDepthParents :: "CallsiteInfo list" where
  "sameDepthParents =
     [site 1 2 0 1, site 2 (-1) 0 1, site 3 4 0 1, site 4 (-1) 0 1,
      site 5 2 0 1]"

text \<open>
  The hash of the output node a record is folded into: the value of the final redirect
  map at the record's hash, or the record's own hash when it is not merged.
\<close>

definition representative :: "CallsiteInfo list \<Rightarrow> rat \<Rightarrow> CallsiteInfo \<Rightarrow> int" where
  "representative data ms x =
     (case finalRedirects data ms (hash x) of Some r \<Rightarrow> r | None \<Rightarrow> hash x)"

text \<open>Four callsites at depth 0, ordered by parent hash, with parents among themselves.\<close>

definition sameDepthCycle :: "CallsiteInfo list" where
  "sameDepthCycle = [site 1 2 0 1, site 2 3 0 1, site 4 3 0 1, site 3 4 0 1]"

section \<open>mergeCallsites on a store of objects\<close>

text \<open>
  In the source the array holds references to objects, \<open>copyCallsite\<close> allocates a new
  object, and the assignments to \<open>copiedCallsite.parentHash\<close> and
  \<open>copiedCallsite.totalSize\<close> write to that object. To state that no input record is
  written, the function is modelled a second time on a store: a list of objects, a
  reference being an index into it and allocation appending to it. The array \<open>data\<close>
  and \<open>mergedData\<close> are lists of references; the function has no assignment to an
  element of \<open>data\<close>, so the array is a value here.
\<close>

type_synonym ref = nat
type_synonym heap = "CallsiteInfo list"

text \<open>\<open>copyCallsite\<close>: the object literal is a new object; its reference is returned.\<close>

definition copyCallsiteH :: "heap \<Rightarrow> ref \<Rightarrow> ref \<times> heap" where
  "copyCallsiteH h callsite =
     (length h,
      h @ [\<lparr>hash = hash (h ! callsite), parentHash = parentHash (h ! callsite),
            depth = depth (h ! callsite), name = name (h ! callsite),
            totalSize = totalSize (h ! callsite)\<rparr>])"

text \<open>
  The \<open>while\<close> loop on the store. Line 59 writes \<open>totalSize\<close> of the object
  \<open>copiedCallsite\<close> refers to; line 60 then reads both hashes.
\<close>

function mergeWhileH ::
  "ref list \<Rightarrow> rat \<Rightarrow> nat \<Rightarrow> ref option \<Rightarrow> ref \<Rightarrow> heap \<Rightarrow> redirects
     \<Rightarrow> error + (heap \<times> redirects)" where
  "mergeWhileH data minSizeDisplayed j nextCallsite copiedCallsite h mergedCallsites =
     (if j < length data then
        (case nextCallsite of
           None \<Rightarrow> Inl TypeError
         | Some nc \<Rightarrow>
             if depth (h ! copiedCallsite) = depth (h ! nc) then
               (if parentHash (h ! copiedCallsite) = getCallsitesParentHash (h ! nc) mergedCallsites
                    \<and> small minSizeDisplayed (h ! nc)
                then
                  (let h' = h[copiedCallsite := (h ! copiedCallsite)
                                \<lparr>totalSize :=
                                   jsAdd (totalSize (h ! copiedCallsite)) (totalSize (h ! nc))\<rparr>]
                   in mergeWhileH data minSizeDisplayed (j + 1) (elemAt data (j + 1))
                        copiedCallsite h'
                        (mergedCallsites(hash (h' ! nc) \<mapsto> hash (h' ! copiedCallsite))))
                else mergeWhileH data minSizeDisplayed (j + 1) (elemAt data (j + 1))
                       copiedCallsite h mergedCallsites)
             else Inr (h, mergedCallsites))
      else Inr (h, mergedCallsites))"
  by pat_completeness auto
termination
  by (relation "measure (\<lambda>(data, ms, j, nc, c, h, m). length data - j)") auto

declare mergeWhileH.simps [simp del]

definition forBodyH ::
  "ref list \<Rightarrow> rat \<Rightarrow> nat \<Rightarrow> heap \<times> ref list \<times> redirects
     \<Rightarrow> error + (heap \<times> ref list \<times> redirects)" where
  "forBodyH data minSizeDisplayed i st =
     (case st of (h, mergedData, mergedCallsites) \<Rightarrow>
        (case elemAt data i of
           None \<Rightarrow> Inl TypeError
         | Some di \<Rightarrow>
             if mergedCallsites (hash (h ! di)) \<noteq> None then Inr (h, mergedData, mergedCallsites)
             else
               (case copyCallsiteH h di of (copiedCallsite, h1) \<Rightarrow>
                  (let h2 = h1[copiedCallsite := (h1 ! copiedCallsite)
                                 \<lparr>parentHash :=
                                    getCallsitesParentHash (h1 ! copiedCallsite) mergedCallsites\<rparr>]
                   in if small minSizeDisplayed (h2 ! copiedCallsite) \<and> i + 1 < length data
                      then (case mergeWhileH data minSizeDisplayed (i + 1) (elemAt data (i + 1))
                                   copiedCallsite h2 mergedCallsites of
                              Inl e \<Rightarrow> Inl e
                            | Inr (h3, m) \<Rightarrow> Inr (h3, mergedData @ [copiedCallsite], m))
                      else Inr (h2, mergedData @ [copiedCallsite], mergedCallsites)))))"

function mergeForH ::
  "ref list \<Rightarrow> rat \<Rightarrow> nat \<Rightarrow> heap \<times> ref list \<times> redirects
     \<Rightarrow> error + (heap \<times> ref list \<times> redirects)" where
  "mergeForH data minSizeDisplayed i st =
     (if i < length data then
        (case forBodyH data minSizeDisplayed i st of
           Inl e \<Rightarrow> Inl e
         | Inr st' \<Rightarrow> mergeForH data minSizeDisplayed (i + 1) st')
      else Inr st)"
  by pat_completeness auto
termination
  by (relation "measure (\<lambda>(data, ms, i, st). length data - i)") auto

declare mergeForH.simps [simp del]

definition mergeCallsitesH :: "heap \<Rightarrow> ref list \<Rightarrow> rat \<Rightarrow> error + (ref list \<times> heap)" where
  "mergeCallsitesH h data minSizeDisplayed =
     (case mergeForH data minSizeDisplayed 0 (h, [], Map.empty) of
        Inl e \<Rightarrow> Inl e
      | Inr (h', mergedData, mergedCallsites) \<Rightarrow> Inr (mergedData, h'))"

text \<open>The records a list of references refers to, and references that are in the store.\<close>

definition deref :: "heap \<Rightarrow> ref list \<Rightarrow> CallsiteInfo list" where
  "deref h data = map (\<lambda>r. h ! r) data"

definition validRefs :: "heap \<Rightarrow> ref list \<Rightarrow> bool" where
  "validRefs h data = (\<forall>r \<in> set data. r < length h)"


text \<open>The store of the example: the three callsites of Scenario 2 and one more object.\<close>

definition scenario2Store :: heap where
  "scenario2Store = scenario2 @ [site 9 8 7 6]"

section \<open>The track controller\<close>

text \<open>
  \<open>HeapProfileFlameraphTrackController.run\<close> and the promise it leaves behind, as
  transitions of a state. JavaScript runs each of them to completion, so an execution is a
  sequence of events: the selection of the application state changes, \<open>run\<close> is
  called, or a pending \<open>getFlamegraphData\<close> settles and its \<open>then\<close> callback runs.

  The selection is an object; \<open>id\<close> is named \<open>selId\<close> here. The application
  state and the constant \<open>selection\<close> of \<open>run\<close> hold references to such objects,
  indices into \<open>selections\<close>. The code that changes the selection is not part of this
  file: it is taken to store a new object in
  \<open>globals.state.currentHeapProfileFlamegraph\<close>, as it must when the first selection
  replaces \<open>undefined\<close>.
\<close>

record HeapProfileFlamegraph =
  kind :: string
  selId :: int
  upid :: int
  ts :: int

text \<open>What is published as \<open>TrackData\<close>: \<open>generateEmptyData()\<close>, or data with a
  merged flamegraph. The fields \<open>start\<close>, \<open>end\<close>, \<open>resolution\<close> and \<open>length\<close>
  are left out.\<close>

datatype trackData = EmptyData | Flamegraph "CallsiteInfo list"

text \<open>
  A pending call of \<open>getFlamegraphData\<close> with the closure of its \<open>then\<close> callback:
  the reference \<open>selection\<close> and the four values copied from the object at the time of
  \<open>run\<close>. \<open>cached\<close> is the entry of \<open>flamegraphDatasets\<close> found for the key when
  the call was made, if there was one; the key \<open>upid;ts\<close> is the pair.
\<close>

record fetch =
  selection :: nat
  selectedId :: int
  selectedUpid :: int
  selectedKind :: string
  selectedTs :: int
  cached :: "CallsiteInfo list option option"

record world =
  selections :: "HeapProfileFlamegraph list"
  currentHeapProfileFlamegraph :: "nat option"
  lastSelectedId :: "int option"
  lastSelectedTs :: "int option"
  flamegraphDatasets :: "int \<times> int \<rightharpoonup> CallsiteInfo list option"
  pending :: "fetch list"
  published :: "trackData list"

definition initialWorld :: world where
  "initialWorld =
     \<lparr>selections = [], currentHeapProfileFlamegraph = None, lastSelectedId = None,
      lastSelectedTs = None, flamegraphDatasets = Map.empty, pending = [], published = []\<rparr>"

definition setSelection :: "HeapProfileFlamegraph option \<Rightarrow> world \<Rightarrow> world" where
  "setSelection s w =
     (case s of
        None \<Rightarrow> w\<lparr>currentHeapProfileFlamegraph := None\<rparr>
      | Some obj \<Rightarrow>
          w\<lparr>selections := selections w @ [obj],
            currentHeapProfileFlamegraph := Some (length (selections w))\<rparr>)"

text \<open>
  \<open>run()\<close>, lines 126 to 173, up to the call of \<open>getFlamegraphData\<close>, whose
  lookup in \<open>flamegraphDatasets\<close> happens within the call. \<open>super.run()\<close> belongs
  to the base class, which is not part of the file, and is left out.
\<close>

definition run :: "world \<Rightarrow> world" where
  "run w =
     (case currentHeapProfileFlamegraph w of
        None \<Rightarrow> w
      | Some r \<Rightarrow>
          if kind (selections w ! r) = ''HEAP_PROFILE_FLAMEGRAPH'' then
            (if lastSelectedId w = Some (selId (selections w ! r))
                  \<and> lastSelectedTs w = Some (ts (selections w ! r))
             then w
             else
               w\<lparr>lastSelectedId := Some (selId (selections w ! r)),
                 lastSelectedTs := Some (ts (selections w ! r)),
                 published := published w @ [EmptyData],
                 pending := pending w @
                   [\<lparr>selection = r,
                     selectedId = selId (selections w ! r),
                     selectedUpid = upid (selections w ! r),
                     selectedKind = kind (selections w ! r),
                     selectedTs = ts (selections w ! r),
                     cached = flamegraphDatasets w
                                (upid (selections w ! r), ts (selections w ! r))\<rparr>]\<rparr>)
          else w)"

text \<open>
  The callback of lines 152 to 171. Its guard reads \<open>kind\<close>, \<open>id\<close> and \<open>ts\<close> from
  the object the constant \<open>selection\<close> refers to, not from the application state.
  \<open>minSize\<close> is what \<open>getMinSizeDisplayed\<close> returns at that moment.
\<close>

definition thenCallback ::
  "fetch \<Rightarrow> CallsiteInfo list option \<Rightarrow> rat \<Rightarrow> world \<Rightarrow> world" where
  "thenCallback f flamegraphData minSize w =
     (case flamegraphData of
        None \<Rightarrow> w
      | Some d \<Rightarrow>
          if kind (selections w ! selection f) = selectedKind f
               \<and> selId (selections w ! selection f) = selectedId f
               \<and> ts (selections w ! selection f) = selectedTs f
          then (case mergeCallsites d minSize of
                  Inl e \<Rightarrow> w
                | Inr mergedFlamegraphData \<Rightarrow>
                    w\<lparr>published := published w @ [Flamegraph mergedFlamegraphData]\<rparr>)
          else w)"

text \<open>
  The pending call \<open>n\<close> settles: with the cached data when the key was in
  \<open>flamegraphDatasets\<close>, otherwise with the result of the query, which is stored under
  the key first (lines 175 to 184).
\<close>

definition settle :: "nat \<Rightarrow> CallsiteInfo list option \<Rightarrow> rat \<Rightarrow> world \<Rightarrow> world" where
  "settle n queryResult minSize w =
     (if n < length (pending w) then
        (let f = pending w ! n;
             w1 = w\<lparr>pending := take n (pending w) @ drop (Suc n) (pending w)\<rparr>
         in case cached f of
              Some currentData \<Rightarrow> thenCallback f currentData minSize w1
            | None \<Rightarrow>
                thenCallback f queryResult minSize
                  (w1\<lparr>flamegraphDatasets :=
                        (flamegraphDatasets w1)((selectedUpid f, selectedTs f) \<mapsto> queryResult)\<rparr>))
      else w)"

datatype event =
  SetSelection "HeapProfileFlamegraph option"
  | Run
  | Settle nat "CallsiteInfo list option" rat

fun step :: "world \<Rightarrow> event \<Rightarrow> world" where
  "step w (SetSelection s) = setSelection s w"
| "step w Run = run w"
| "step w (Settle n queryResult minSize) = settle n queryResult minSize w"

definition runEvents :: "event list \<Rightarrow> world" where
  "runEvents es = foldl step initialWorld es"

text \<open>
  The user selects A, then B while the query for A is running; the query for A returns
  the callsites of Scenario 2.
\<close>

definition selectionA :: HeapProfileFlamegraph where
  "selectionA = \<lparr>kind = ''HEAP_PROFILE_FLAMEGRAPH'', selId = 1, upid = 7, ts = 100\<rparr>"

definition selectionB :: HeapProfileFlamegraph where
  "selectionB = \<lparr>kind = ''HEAP_PROFILE_FLAMEGRAPH'', selId = 2, upid = 7, ts = 200\<rparr>"

definition staleTrace :: "event list" where
  "staleTrace =
     [SetSelection (Some selectionA), Run, SetSelection (Some selectionB), Run,
      Settle 0 (Some scenario2) 2]"

definition activeSelection :: "world \<Rightarrow> HeapProfileFlamegraph option" where
  "activeSelection w = map_option (\<lambda>r. selections w ! r) (currentHeapProfileFlamegraph w)"

text \<open>The values copied by \<open>run\<close> are those of the object the callback reads.\<close>

definition fetchMatches :: "world \<Rightarrow> fetch \<Rightarrow> bool" where
  "fetchMatches w f \<longleftrightarrow>
     selection f < length (selections w)
     \<and> kind (selections w ! selection f) = selectedKind f
     \<and> selId (selections w ! selection f) = selectedId f
     \<and> ts (selections w ! selection f) = selectedTs f"

definition worldInv :: "world \<Rightarrow> bool" where
  "worldInv w \<longleftrightarrow>
     (\<forall>r. currentHeapProfileFlamegraph w = Some r \<longrightarrow> r < length (selections w))
     \<and> (\<forall>f \<in> set (pending w). fetchMatches w f)"

section \<open>The loops compute what their recursive forms compute\<close>

lemma elemAt_drop: "j < length data \<Longrightarrow> drop j data = data ! j # drop (Suc j) data"
  by (simp add: Cons_nth_drop_Suc)

lemma mergeWhile_scanRun:
  "j \<le> length data \<Longrightarrow>
   mergeWhile data ms j (elemAt data j) c m = Inr (scanRun ms c m (drop j data))"
proof (induction "length data - j" arbitrary: j c m)
  case 0
  then show ?case by (subst mergeWhile.simps) simp
next
  case (Suc n)
  then have lt: "j < length data" by simp
  have step: "mergeWhile data ms (Suc j) (elemAt data (Suc j)) c' m'
                = Inr (scanRun ms c' m' (drop (Suc j) data))" for c' m'
    using Suc.hyps(1) [of "Suc j" c' m'] Suc.hyps(2) lt by simp
  have here: "elemAt data j = Some (data ! j)"
    using lt by (simp add: elemAt_def)
  show ?case
    using lt by (subst mergeWhile.simps) (simp add: here elemAt_drop [OF lt] step)
qed

lemma copyCallsite_id [simp]: "copyCallsite c = c"
  by (simp add: copyCallsite_def)

lemma getCallsitesParentHash_parentHash_update [simp]:
  "getCallsitesParentHash (c\<lparr>totalSize := t\<rparr>) m = getCallsitesParentHash c m"
  by (simp add: getCallsitesParentHash_def)

lemma forBody_bodyResult:
  assumes "i < length data"
  shows "forBody data ms i st = Inr (bodyResult ms (data ! i) (drop (Suc i) data) st)"
proof (cases st)
  case (Pair out m)
  show ?thesis
  proof (cases "Suc i < length data")
    case True
    then show ?thesis
      using assms Pair mergeWhile_scanRun [of "Suc i" data ms]
      by (simp add: forBody_def bodyResult_def elemAt_def Let_def split: prod.split)
  next
    case False
    then have "drop (Suc i) data = []" by simp
    then show ?thesis
      using assms Pair False
      by (simp add: forBody_def bodyResult_def elemAt_def Let_def)
  qed
qed

lemma mergeRest_bodyResult:
  "mergeRest ms m (x # xs) =
     (case bodyResult ms x xs ([], m) of
        (out, m') \<Rightarrow> (case mergeRest ms m' xs of (out', mf) \<Rightarrow> (out @ out', mf)))"
  by (simp add: bodyResult_def split: prod.split)

lemma bodyResult_append:
  "bodyResult ms x xs (out, m) =
     (out @ fst (bodyResult ms x xs ([], m)), snd (bodyResult ms x xs ([], m)))"
  by (simp add: bodyResult_def split: prod.split)

lemma mergeFor_mergeRest:
  "i \<le> length data \<Longrightarrow>
   mergeFor data ms i (out, m) =
     Inr (out @ fst (mergeRest ms m (drop i data)), snd (mergeRest ms m (drop i data)))"
proof (induction "length data - i" arbitrary: i out m)
  case 0
  then show ?case by (subst mergeFor.simps) simp
next
  case (Suc n)
  then have lt: "i < length data" by simp
  obtain o1 m1 where b: "bodyResult ms (data ! i) (drop (Suc i) data) ([], m) = (o1, m1)"
    by (cases "bodyResult ms (data ! i) (drop (Suc i) data) ([], m)")
  have b': "bodyResult ms (data ! i) (drop (Suc i) data) (out, m) = (out @ o1, m1)"
    by (subst bodyResult_append) (simp add: b)
  have ih: "mergeFor data ms (i + 1) (out @ o1, m1) =
              Inr ((out @ o1) @ fst (mergeRest ms m1 (drop (Suc i) data)),
                   snd (mergeRest ms m1 (drop (Suc i) data)))"
    using Suc.hyps(1) [of "i + 1" "out @ o1" m1] Suc.hyps(2) lt by simp
  have "mergeFor data ms i (out, m) = mergeFor data ms (i + 1) (out @ o1, m1)"
    using lt by (subst mergeFor.simps) (simp add: forBody_bodyResult b')
  also note ih
  finally show ?case
    by (simp add: elemAt_drop [OF lt] mergeRest_bodyResult b split: prod.split
             del: mergeRest.simps)
qed

lemma mergeCallsites_mergeRest:
  "mergeCallsites data ms = Inr (fst (mergeRest ms Map.empty data))"
  by (simp add: mergeCallsites_def mergeFor_mergeRest split: prod.split)

lemma finalRedirects_mergeRest:
  "finalRedirects data ms = snd (mergeRest ms Map.empty data)"
  by (simp add: finalRedirects_def mergeFor_mergeRest split: prod.split)

section \<open>What the scan of one run does\<close>

lemma scanRun_fields [simp]:
  "hash (fst (scanRun ms c m xs)) = hash c"
  "depth (fst (scanRun ms c m xs)) = depth c"
  "name (fst (scanRun ms c m xs)) = name c"
  "parentHash (fst (scanRun ms c m xs)) = parentHash c"
  by (induction xs arbitrary: c m; simp)+

lemma scanRun_outside:
  "h \<notin> hash ` set xs \<Longrightarrow> snd (scanRun ms c m xs) h = m h"
  by (induction xs arbitrary: c m) auto

lemma scanRun_dom_mono: "h \<in> dom m \<Longrightarrow> h \<in> dom (snd (scanRun ms c m xs))"
  by (induction xs arbitrary: c m) auto

lemma scanRun_values:
  "snd (scanRun ms c m xs) h = Some v \<Longrightarrow> m h = Some v \<or> v = hash c"
proof (induction xs arbitrary: c m)
  case Nil
  then show ?case by simp
next
  case (Cons x xs)
  show ?case
  proof (cases "depth c = depth x \<and> parentHash c = getCallsitesParentHash x m \<and> small ms x")
    case True
    then have "snd (scanRun ms (c\<lparr>totalSize := jsAdd (totalSize c) (totalSize x)\<rparr>)
                 (m(hash x \<mapsto> hash c)) xs) h = Some v"
      using Cons.prems by simp
    from Cons.IH [OF this] show ?thesis
      by (auto split: if_splits)
  next
    case False
    then show ?thesis
      using Cons.prems Cons.IH [of c m] by (auto split: if_splits)
  qed
qed

lemma bodyResult_fst:
  "fst (bodyResult ms x xs ([], m)) =
     (if m (hash x) \<noteq> None then []
      else if small ms x
      then [fst (scanRun ms (x\<lparr>parentHash := getCallsitesParentHash x m\<rparr>) m xs)]
      else [x\<lparr>parentHash := getCallsitesParentHash x m\<rparr>])"
  by (simp add: bodyResult_def split: prod.split)

lemma bodyResult_snd:
  "snd (bodyResult ms x xs ([], m)) =
     (if m (hash x) = None \<and> small ms x
      then snd (scanRun ms (x\<lparr>parentHash := getCallsitesParentHash x m\<rparr>) m xs)
      else m)"
  by (simp add: bodyResult_def split: prod.split)

lemma mergeRest_fst_Cons:
  "fst (mergeRest ms m (x # xs)) =
     fst (bodyResult ms x xs ([], m)) @ fst (mergeRest ms (snd (bodyResult ms x xs ([], m))) xs)"
  by (simp add: mergeRest_bodyResult split: prod.split del: mergeRest.simps)

lemma mergeRest_snd_Cons:
  "snd (mergeRest ms m (x # xs)) = snd (mergeRest ms (snd (bodyResult ms x xs ([], m))) xs)"
  by (simp add: mergeRest_bodyResult split: prod.split del: mergeRest.simps)

lemma bodyResult_dom_mono: "h \<in> dom m \<Longrightarrow> h \<in> dom (snd (bodyResult ms x xs ([], m)))"
  by (simp add: bodyResult_snd scanRun_dom_mono)

lemma bodyResult_outside:
  "h \<notin> hash ` set xs \<Longrightarrow> snd (bodyResult ms x xs ([], m)) h = m h"
  by (simp add: bodyResult_snd scanRun_outside)

lemma mergeRest_dom_mono: "h \<in> dom m \<Longrightarrow> h \<in> dom (snd (mergeRest ms m xs))"
proof (induction xs arbitrary: m)
  case Nil
  then show ?case by simp
next
  case (Cons x xs)
  show ?case
    unfolding mergeRest_snd_Cons
    by (rule Cons.IH) (rule bodyResult_dom_mono [OF Cons.prems])
qed

lemma mergeRest_outside:
  "h \<notin> hash ` set xs \<Longrightarrow> snd (mergeRest ms m xs) h = m h"
proof (induction xs arbitrary: m)
  case Nil
  then show ?case by simp
next
  case (Cons x xs)
  then have h: "h \<notin> hash ` set xs" by simp
  show ?case
    unfolding mergeRest_snd_Cons
    by (simp add: Cons.IH [OF h] bodyResult_outside [OF h])
qed

lemma mergeRest_survivors:
  "distinct (map hash xs) \<Longrightarrow>
   map hash (fst (mergeRest ms m xs)) =
     map hash (filter (\<lambda>x. snd (mergeRest ms m xs) (hash x) = None) xs)"
proof (induction xs arbitrary: m)
  case Nil
  then show ?case by simp
next
  case (Cons x xs)
  let ?m' = "snd (bodyResult ms x xs ([], m))"
  let ?mf = "snd (mergeRest ms ?m' xs)"
  from Cons.prems have fresh: "hash x \<notin> hash ` set xs" and d: "distinct (map hash xs)"
    by simp_all
  have rest: "map hash (fst (mergeRest ms ?m' xs)) =
                map hash (filter (\<lambda>y. ?mf (hash y) = None) xs)"
    by (rule Cons.IH [OF d])
  have head: "?mf (hash x) = m (hash x)" if "m (hash x) = None"
    using mergeRest_outside [OF fresh, of ms ?m'] bodyResult_outside [OF fresh, of ms x m]
    by simp
  show ?case
  proof (cases "m (hash x) = None")
    case True
    then show ?thesis
      unfolding mergeRest_fst_Cons mergeRest_snd_Cons
      using rest head by (simp add: bodyResult_fst)
  next
    case False
    then have "hash x \<in> dom ?mf"
      by (intro mergeRest_dom_mono bodyResult_dom_mono) (simp add: domIff)
    then have "?mf (hash x) \<noteq> None"
      by (simp add: domIff)
    then show ?thesis
      unfolding mergeRest_fst_Cons mergeRest_snd_Cons
      using rest False by (simp add: bodyResult_fst)
  qed
qed

section \<open>A sequence in which nothing merges\<close>

lemma getCallsitesParentHash_empty [simp]:
  "getCallsitesParentHash c Map.empty = parentHash c"
  by (simp add: getCallsitesParentHash_def)

lemma scanRun_alone:
  "\<forall>y \<in> set xs. \<not> (depth y = depth c \<and> parentHash y = parentHash c) \<Longrightarrow>
   scanRun ms c Map.empty xs = (c, Map.empty)"
  by (induction xs) auto

lemma thresholdSatisfying_head:
  assumes "thresholdSatisfying ms (x # xs)" and "small ms x" and "y \<in> set xs"
  shows "\<not> (depth y = depth x \<and> parentHash y = parentHash x)"
proof -
  from assms(3) obtain k where k: "k < length xs" "xs ! k = y"
    by (auto simp: in_set_conv_nth)
  from assms(1) have
    "\<not> small ms ((x # xs) ! 0) \<or>
       (\<forall>j \<in> {..<length (x # xs)}. j \<noteq> 0 \<longrightarrow>
          \<not> (depth ((x # xs) ! j) = depth ((x # xs) ! 0)
               \<and> parentHash ((x # xs) ! j) = parentHash ((x # xs) ! 0)))"
    unfolding thresholdSatisfying_def by (rule bspec) simp
  with assms(2) have
    "\<forall>j \<in> {..<length (x # xs)}. j \<noteq> 0 \<longrightarrow>
       \<not> (depth ((x # xs) ! j) = depth x \<and> parentHash ((x # xs) ! j) = parentHash x)"
    by simp
  then have "Suc k \<noteq> 0 \<longrightarrow>
       \<not> (depth ((x # xs) ! Suc k) = depth x \<and> parentHash ((x # xs) ! Suc k) = parentHash x)"
    by (rule bspec) (simp add: k(1))
  then show ?thesis
    by (simp add: k(2))
qed

lemma thresholdSatisfying_tail:
  assumes "thresholdSatisfying ms (x # xs)"
  shows "thresholdSatisfying ms xs"
  unfolding thresholdSatisfying_def
proof (intro ballI)
  fix i
  assume "i \<in> {..<length xs}"
  then have i: "Suc i \<in> {..<length (x # xs)}" by simp
  from assms have
    a: "\<not> small ms ((x # xs) ! Suc i) \<or>
       (\<forall>j \<in> {..<length (x # xs)}. j \<noteq> Suc i \<longrightarrow>
          \<not> (depth ((x # xs) ! j) = depth ((x # xs) ! Suc i)
               \<and> parentHash ((x # xs) ! j) = parentHash ((x # xs) ! Suc i)))"
    unfolding thresholdSatisfying_def using i by (rule bspec)
  show "\<not> small ms (xs ! i) \<or>
          (\<forall>j \<in> {..<length xs}. j \<noteq> i \<longrightarrow>
             \<not> (depth (xs ! j) = depth (xs ! i) \<and> parentHash (xs ! j) = parentHash (xs ! i)))"
  proof (cases "small ms (xs ! i)")
    case False
    then show ?thesis by simp
  next
    case True
    with a have
      b: "\<forall>j \<in> {..<length (x # xs)}. j \<noteq> Suc i \<longrightarrow>
          \<not> (depth ((x # xs) ! j) = depth (xs ! i)
               \<and> parentHash ((x # xs) ! j) = parentHash (xs ! i))"
      by simp
    have "\<not> (depth (xs ! j) = depth (xs ! i) \<and> parentHash (xs ! j) = parentHash (xs ! i))"
      if "j \<in> {..<length xs}" "j \<noteq> i" for j
    proof -
      from that have "Suc j \<in> {..<length (x # xs)}" "Suc j \<noteq> Suc i" by simp_all
      with b show ?thesis by fastforce
    qed
    then show ?thesis by blast
  qed
qed

lemma mergeRest_nothing_merges:
  "thresholdSatisfying ms xs \<Longrightarrow> mergeRest ms Map.empty xs = (xs, Map.empty)"
proof (induction xs)
  case Nil
  then show ?case by simp
next
  case (Cons x xs)
  have rest: "mergeRest ms Map.empty xs = (xs, Map.empty)"
    by (rule Cons.IH) (rule thresholdSatisfying_tail [OF Cons.prems])
  show ?case
  proof (cases "small ms x")
    case True
    then have "\<forall>y \<in> set xs. \<not> (depth y = depth x \<and> parentHash y = parentHash x)"
      using thresholdSatisfying_head [OF Cons.prems] by blast
    then have "scanRun ms x Map.empty xs = (x, Map.empty)"
      by (rule scanRun_alone)
    then show ?thesis
      using True rest by simp
  next
    case False
    then show ?thesis
      using rest by simp
  qed
qed

section \<open>The state of the loop at an index\<close>

lemma mergeFor_stateAt:
  "i \<le> length data \<Longrightarrow> stateAt data ms i = Inr st \<Longrightarrow>
   mergeFor data ms i st = mergeFor data ms 0 ([], Map.empty)"
proof (induction i arbitrary: st)
  case 0
  then show ?case by simp
next
  case (Suc i)
  then have lt: "i < length data" by simp
  from Suc.prems(2) obtain st0 where
    st0: "stateAt data ms i = Inr st0" and body: "forBody data ms i st0 = Inr st"
    by (auto split: sum.splits)
  have "mergeFor data ms i st0 = mergeFor data ms (Suc i) st"
    using lt body by (subst mergeFor.simps) simp
  then show ?case
    using Suc.IH [OF _ st0] lt by simp
qed

lemma stateAt_final:
  assumes "stateAt data ms (length data) = Inr (out, m)"
  shows "mergeCallsites data ms = Inr out"
proof -
  have "mergeFor data ms (length data) (out, m) = Inr (out, m)"
    by (subst mergeFor.simps) simp
  then have "mergeFor data ms 0 ([], Map.empty) = Inr (out, m)"
    using mergeFor_stateAt [OF _ assms] by simp
  then show ?thesis
    by (simp add: mergeCallsites_def)
qed

lemma finalRedirects_stateAt:
  assumes "i \<le> length data" and "stateAt data ms i = Inr (out, m)"
  shows "finalRedirects data ms = snd (mergeRest ms m (drop i data))"
proof -
  have "mergeFor data ms 0 ([], Map.empty) = mergeFor data ms i (out, m)"
    using mergeFor_stateAt [OF assms] by simp
  then show ?thesis
    by (simp add: finalRedirects_def mergeFor_mergeRest [OF assms(1)])
qed

lemma stateAt_Suc:
  assumes "i < length data" and "stateAt data ms i = Inr st"
  shows "stateAt data ms (Suc i) = Inr (bodyResult ms (data ! i) (drop (Suc i) data) st)"
  using assms by (simp add: forBody_bodyResult)

lemma stateAt_defined: "i \<le> length data \<Longrightarrow> \<exists>st. stateAt data ms i = Inr st"
proof (induction i)
  case 0
  then show ?case by simp
next
  case (Suc i)
  then obtain st where "stateAt data ms i = Inr st" by auto
  with Suc.prems show ?case
    using stateAt_Suc [of i data ms st] by simp
qed

lemma scanRun_dom_subset:
  "dom (snd (scanRun ms c m xs)) \<subseteq> dom m \<union> hash ` set xs"
proof
  fix h
  assume h: "h \<in> dom (snd (scanRun ms c m xs))"
  show "h \<in> dom m \<union> hash ` set xs"
  proof (cases "h \<in> hash ` set xs")
    case True
    then show ?thesis by simp
  next
    case False
    from scanRun_outside [OF False, of ms c m] h show ?thesis
      by (simp add: domIff)
  qed
qed

lemma bodyResult_dom_subset:
  "dom (snd (bodyResult ms x xs (out, m))) \<subseteq> dom m \<union> hash ` set xs"
proof (cases "m (hash x) = None \<and> small ms x")
  case True
  then have "snd (bodyResult ms x xs (out, m)) =
      snd (scanRun ms (x\<lparr>parentHash := getCallsitesParentHash x m\<rparr>) m xs)"
    by (simp add: bodyResult_def split: prod.split)
  then show ?thesis
    by (simp add: scanRun_dom_subset)
next
  case False
  then have "snd (bodyResult ms x xs (out, m)) = m"
    by (auto simp: bodyResult_def)
  then show ?thesis by simp
qed

lemma bodyResult_cases:
  assumes "bodyResult ms x xs (out, m) = (out', m')"
  shows "(m (hash x) \<noteq> None \<and> out' = out \<and> m' = m)
       \<or> (m (hash x) = None
          \<and> (\<exists>c. out' = out @ [c] \<and> hash c = hash x \<and> depth c = depth x \<and> name c = name x
                \<and> parentHash c = getCallsitesParentHash x m))"
proof (cases "m (hash x) = None")
  case False
  with assms show ?thesis
    by (auto simp: bodyResult_def)
next
  case True
  let ?c = "x\<lparr>parentHash := getCallsitesParentHash x m\<rparr>"
  show ?thesis
  proof (cases "small ms x")
    case False
    with True assms have "out' = out @ [?c]"
      by (auto simp: bodyResult_def)
    with True show ?thesis by simp
  next
    case small: True
    with True assms have "out' = out @ [fst (scanRun ms ?c m xs)]"
      by (auto simp: bodyResult_def split: prod.splits)
    with True show ?thesis by simp
  qed
qed

lemma stateAt_emitted:
  "i \<le> length data \<Longrightarrow> stateAt data ms i = Inr (out, m) \<Longrightarrow>
   dom m \<subseteq> hash ` set data \<and> (\<forall>k < length out. emittedAt data ms k (out ! k))"
proof (induction i arbitrary: out m)
  case 0
  then show ?case by auto
next
  case (Suc i)
  then have lt: "i < length data" by simp
  from stateAt_defined [of i data ms] lt obtain out0 m0 where
    st0: "stateAt data ms i = Inr (out0, m0)"
    by (metis less_imp_le_nat surj_pair)
  from Suc.IH [OF _ st0] lt have
    dom0: "dom m0 \<subseteq> hash ` set data" and
    em0: "\<forall>k < length out0. emittedAt data ms k (out0 ! k)"
    by simp_all
  have res: "bodyResult ms (data ! i) (drop (Suc i) data) (out0, m0) = (out, m)"
    using stateAt_Suc [OF lt st0] Suc.prems(2) by simp
  have "dom m \<subseteq> dom m0 \<union> hash ` set (drop (Suc i) data)"
    using bodyResult_dom_subset [of ms "data ! i" "drop (Suc i) data" out0 m0] res by simp
  moreover have "set (drop (Suc i) data) \<subseteq> set data"
    by (rule set_drop_subset)
  ultimately have dom1: "dom m \<subseteq> hash ` set data"
    using dom0 by blast
  from bodyResult_cases [OF res] show ?case
  proof
    assume "m0 (hash (data ! i)) \<noteq> None \<and> out = out0 \<and> m = m0"
    with em0 dom1 show ?thesis by simp
  next
    assume "m0 (hash (data ! i)) = None
       \<and> (\<exists>c. out = out0 @ [c] \<and> hash c = hash (data ! i) \<and> depth c = depth (data ! i)
              \<and> name c = name (data ! i)
              \<and> parentHash c = getCallsitesParentHash (data ! i) m0)"
    then obtain c where
      fresh: "m0 (hash (data ! i)) = None" and out: "out = out0 @ [c]" and
      c: "hash c = hash (data ! i)" "depth c = depth (data ! i)" "name c = name (data ! i)"
         "parentHash c = getCallsitesParentHash (data ! i) m0"
      by blast
    have last: "emittedAt data ms (length out0) c"
      unfolding emittedAt_def using lt st0 fresh c dom0 by blast
    have "emittedAt data ms k (out ! k)" if "k < length out" for k
    proof (cases "k < length out0")
      case True
      with em0 out show ?thesis by (simp add: nth_append)
    next
      case False
      with that out have "k = length out0" by simp
      with last out show ?thesis by simp
    qed
    with dom1 show ?thesis by blast
  qed
qed

lemma mergeCallsites_emitted:
  assumes "mergeCallsites data ms = Inr out" and "k < length out"
  shows "emittedAt data ms k (out ! k)"
proof -
  from stateAt_defined [of "length data" data ms] obtain out' m where
    st: "stateAt data ms (length data) = Inr (out', m)"
    by (metis order_refl surj_pair)
  from stateAt_final [OF st] assms(1) have "out' = out" by simp
  with stateAt_emitted [OF _ st] assms(2) show ?thesis by simp
qed

section \<open>Additions that do not round\<close>

lemma roundNearestEven_exact:
  "a \<le> 9007199254740992 \<Longrightarrow> roundNearestEven (ulp a) a = a"
proof (cases "a < 9007199254740992")
  case True
  then have "ulp a = 1" by (subst ulp.simps) simp
  then show ?thesis by (simp add: roundNearestEven_def)
next
  case False
  assume "a \<le> 9007199254740992"
  with False have a: "a = 9007199254740992" by simp
  have "ulp a = 2"
    unfolding a by (simp add: ulp.simps)
  then show ?thesis
    by (simp add: roundNearestEven_def a)
qed

lemma roundDouble_exact: "\<bar>n\<bar> \<le> 9007199254740992 \<Longrightarrow> roundDouble n = n"
proof (cases "n < 0")
  case True
  assume "\<bar>n\<bar> \<le> 9007199254740992"
  with True have "nat (- n) \<le> 9007199254740992"
    by simp
  from roundNearestEven_exact [OF this] True show ?thesis
    by (simp add: roundDouble_def)
next
  case False
  assume "\<bar>n\<bar> \<le> 9007199254740992"
  with False have "nat n \<le> 9007199254740992"
    by simp
  from roundNearestEven_exact [OF this] False show ?thesis
    by (simp add: roundDouble_def)
qed

lemma jsAdd_exact: "\<bar>a + b\<bar> \<le> 9007199254740992 \<Longrightarrow> jsAdd a b = a + b"
  by (simp add: jsAdd_def roundDouble_exact)

lemma foldl_jsAdd_exact:
  "\<bar>a\<bar> + sum_list (map abs bs) \<le> 9007199254740992 \<Longrightarrow> foldl jsAdd a bs = a + sum_list bs"
proof (induction bs arbitrary: a)
  case Nil
  then show ?case by simp
next
  case (Cons b bs)
  have nonneg: "0 \<le> sum_list (map abs bs)"
    by (rule sum_list_nonneg) auto
  from Cons.prems nonneg have "\<bar>a + b\<bar> \<le> 9007199254740992"
    by simp
  then have step: "jsAdd a b = a + b"
    by (rule jsAdd_exact)
  from Cons.prems have "\<bar>a + b\<bar> + sum_list (map abs bs) \<le> 9007199254740992"
    by simp
  from Cons.IH [OF this] show ?case
    by (simp add: step)
qed

lemma sum_list_filter_takeWhile_le:
  fixes f :: "'a \<Rightarrow> int"
  assumes "\<And>x. 0 \<le> f x"
  shows "sum_list (map f (filter P (takeWhile Q xs))) \<le> sum_list (map f xs)"
proof (induction xs)
  case Nil
  then show ?case by simp
next
  case (Cons x xs)
  have "0 \<le> sum_list (map f xs)"
    by (rule sum_list_nonneg) (auto simp: assms)
  with Cons assms [of x] show ?case
    by auto
qed

section \<open>Conservation of the total size\<close>

lemma sameRun_Cons:
  "sameRun d (x # xs) = (if depth x = d then x # sameRun d xs else [])"
  by (simp add: sameRun_def)

lemma sameRun_subset: "set (sameRun d xs) \<subseteq> set xs"
  unfolding sameRun_def by (auto dest: set_takeWhileD)

lemma sameRun_depth: "y \<in> set (sameRun d xs) \<Longrightarrow> depth y = d"
  unfolding sameRun_def by (auto dest: set_takeWhileD)

lemma getCallsitesParentHash_upd_other:
  "parentHash y \<noteq> k \<Longrightarrow> getCallsitesParentHash y (m(k \<mapsto> v)) = getCallsitesParentHash y m"
  by (simp add: getCallsitesParentHash_def)

lemma candidates_upd:
  assumes "\<forall>y \<in> set (sameRun d xs). parentHash y \<noteq> k"
  shows "candidates ms p (m(k \<mapsto> v)) d xs = candidates ms p m d xs"
  unfolding candidates_def
  by (rule filter_cong [OF refl]) (simp add: assms getCallsitesParentHash_upd_other)

lemma scanRun_closed:
  assumes "\<forall>x \<in> set (sameRun (depth c) xs). \<forall>y \<in> set (sameRun (depth c) xs). parentHash x \<noteq> hash y"
  shows "scanRun ms c m xs =
           (c\<lparr>totalSize := foldl jsAdd (totalSize c)
                 (map totalSize (candidates ms (parentHash c) m (depth c) xs))\<rparr>,
            redirectAll m (candidates ms (parentHash c) m (depth c) xs) (hash c))"
  using assms
proof (induction xs arbitrary: c m)
  case Nil
  then show ?case
    by (simp add: candidates_def sameRun_def redirectAll_def)
next
  case (Cons x xs)
  show ?case
  proof (cases "depth c = depth x")
    case False
    then show ?thesis
      by (simp add: candidates_def sameRun_Cons redirectAll_def)
  next
    case True
    then have run: "sameRun (depth c) (x # xs) = x # sameRun (depth c) xs"
      by (simp add: sameRun_Cons)
    from Cons.prems have
      np: "\<forall>a \<in> set (sameRun (depth c) xs). \<forall>b \<in> set (sameRun (depth c) xs). parentHash a \<noteq> hash b"
      and npx: "\<forall>y \<in> set (sameRun (depth c) xs). parentHash y \<noteq> hash x"
      unfolding run by simp_all
    show ?thesis
    proof (cases "parentHash c = getCallsitesParentHash x m \<and> small ms x")
      case False
      then have "scanRun ms c m (x # xs) = scanRun ms c m xs"
        using True by auto
      moreover have "candidates ms (parentHash c) m (depth c) (x # xs)
                      = candidates ms (parentHash c) m (depth c) xs"
        using False by (auto simp: candidates_def run)
      ultimately show ?thesis
        using Cons.IH [of c m] np by simp
    next
      case match: True
      let ?c = "c\<lparr>totalSize := jsAdd (totalSize c) (totalSize x)\<rparr>"
      let ?m = "m(hash x \<mapsto> hash c)"
      have step: "scanRun ms c m (x # xs) = scanRun ms ?c ?m xs"
        using True match by simp
      have cs: "candidates ms (parentHash c) m (depth c) (x # xs)
                  = x # candidates ms (parentHash c) m (depth c) xs"
        using match by (auto simp: candidates_def run)
      have cs': "candidates ms (parentHash c) ?m (depth c) xs
                  = candidates ms (parentHash c) m (depth c) xs"
        by (rule candidates_upd) (use npx in blast)
      have "scanRun ms ?c ?m xs =
              (?c\<lparr>totalSize := foldl jsAdd (totalSize ?c)
                 (map totalSize (candidates ms (parentHash ?c) ?m (depth ?c) xs))\<rparr>,
               redirectAll ?m (candidates ms (parentHash ?c) ?m (depth ?c) xs) (hash ?c))"
        by (rule Cons.IH) (use np in simp)
      then show ?thesis
        unfolding step cs
        by (simp add: cs' redirectAll_def fun_eq_iff)
    qed
  qed
qed

lemma scanInv_tail:
  assumes "scanInv ms m (x # xs)"
  shows "scanInv ms m xs"
  unfolding scanInv_def
proof (intro allI impI)
  fix j k
  assume "j < length xs" "k < j" "m (hash (xs ! j)) \<noteq> None"
  then have "Suc j < length (x # xs)" "Suc k < Suc j" "m (hash ((x # xs) ! Suc j)) \<noteq> None"
    by simp_all
  with assms [unfolded scanInv_def, rule_format, of "Suc j" "Suc k"]
  show "depth (xs ! k) = depth (xs ! j)
        \<and> (small ms (xs ! k) \<and> m (hash (xs ! k)) = None \<longrightarrow>
             getCallsitesParentHash (xs ! k) m \<noteq> getCallsitesParentHash (xs ! j) m)"
    by simp
qed

lemma scanInv_head:
  assumes "scanInv ms m (x # xs)" and "y \<in> set xs" and "m (hash y) \<noteq> None"
  shows "depth x = depth y"
    and "small ms x \<Longrightarrow> m (hash x) = None \<Longrightarrow>
           getCallsitesParentHash x m \<noteq> getCallsitesParentHash y m"
proof -
  from assms(2) obtain j where j: "j < length xs" "xs ! j = y"
    by (auto simp: in_set_conv_nth)
  then have "Suc j < length (x # xs)" "0 < Suc j" "m (hash ((x # xs) ! Suc j)) \<noteq> None"
    using assms(3) by simp_all
  with assms(1) [unfolded scanInv_def, rule_format, of "Suc j" 0]
  have both: "depth x = depth y
        \<and> (small ms x \<and> m (hash x) = None \<longrightarrow>
             getCallsitesParentHash x m \<noteq> getCallsitesParentHash y m)"
    using j(2) by simp
  then show "depth x = depth y" by simp
  show "getCallsitesParentHash x m \<noteq> getCallsitesParentHash y m"
    if "small ms x" "m (hash x) = None"
    using both that by simp
qed

lemma candidates_subset: "set (candidates ms p m d xs) \<subseteq> set (sameRun d xs)"
  by (auto simp: candidates_def)

lemma candidates_iff:
  "y \<in> set (candidates ms p m d xs) \<longleftrightarrow>
     y \<in> set (sameRun d xs) \<and> getCallsitesParentHash y m = p \<and> small ms y"
  by (auto simp: candidates_def)

lemma candidates_unmerged:
  assumes "scanInv ms m (x # xs)" and "small ms x" and "m (hash x) = None"
    and "y \<in> set (candidates ms (getCallsitesParentHash x m) m (depth x) xs)"
  shows "m (hash y) = None"
proof (rule ccontr)
  assume merged: "m (hash y) \<noteq> None"
  from assms(4) have y: "y \<in> set xs" "getCallsitesParentHash y m = getCallsitesParentHash x m"
    using sameRun_subset [of "depth x" xs] by (auto simp: candidates_iff)
  from scanInv_head(2) [OF assms(1) y(1) merged assms(2,3)] y(2) show False
    by simp
qed

lemma redirectAll_None:
  "redirectAll m cs h k = None \<longleftrightarrow> m k = None \<and> k \<notin> hash ` set cs"
  by (simp add: redirectAll_def)

lemma redirectAll_parent:
  "parentHash y \<notin> hash ` set cs \<Longrightarrow>
   getCallsitesParentHash y (redirectAll m cs h) = getCallsitesParentHash y m"
  by (simp add: getCallsitesParentHash_def redirectAll_def)

lemma noParentAtSameDepth_tail: "noParentAtSameDepth (x # xs) \<Longrightarrow> noParentAtSameDepth xs"
  by (simp add: noParentAtSameDepth_def)

lemma noParentAtSameDepthD:
  "noParentAtSameDepth zs \<Longrightarrow> a \<in> set zs \<Longrightarrow> b \<in> set zs \<Longrightarrow> depth b = depth a
   \<Longrightarrow> hash b \<noteq> parentHash a"
  by (simp add: noParentAtSameDepth_def)

lemma sameRun_prefix:
  assumes "distinct xs" and "j < length xs" and "xs ! j \<in> set (sameRun d xs)" and "k \<le> j"
  shows "xs ! k \<in> set (sameRun d xs)"
proof -
  let ?t = "takeWhile (\<lambda>x. depth x = d) xs"
  from assms(3) obtain i where i: "i < length ?t" "?t ! i = xs ! j"
    by (auto simp: sameRun_def in_set_conv_nth)
  have le: "length ?t \<le> length xs"
    by (rule length_takeWhile_le)
  from i have "xs ! i = xs ! j"
    by (simp add: takeWhile_nth)
  with assms(1,2) i(1) le have "i = j"
    by (simp add: nth_eq_iff_index_eq)
  with i(1) assms(4) have "k < length ?t" by simp
  then have "?t ! k \<in> set ?t" by simp
  with \<open>k < length ?t\<close> show ?thesis
    by (simp add: sameRun_def takeWhile_nth)
qed

lemma stable_in_run:
  assumes "noParentAtSameDepth (x # xs)" and "y \<in> set (x # xs)" and "depth y = depth x"
  shows "parentHash y \<notin> hash ` set (candidates ms p m (depth x) xs)"
proof
  assume "parentHash y \<in> hash ` set (candidates ms p m (depth x) xs)"
  then obtain b where b: "b \<in> set (candidates ms p m (depth x) xs)" "hash b = parentHash y"
    by auto
  then have "b \<in> set (x # xs)" "depth b = depth y"
    using candidates_subset [of ms p m "depth x" xs] sameRun_subset [of "depth x" xs]
      sameRun_depth [of b "depth x" xs] assms(3) by auto
  with noParentAtSameDepthD [OF assms(1,2)] b(2) show False
    by blast
qed

lemma scanInv_step:
  assumes inv: "scanInv ms m (x # xs)"
    and dist: "distinct (map hash (x # xs))"
    and np: "noParentAtSameDepth (x # xs)"
    and fresh: "m (hash x) = None"
    and small: "small ms x"
  shows "scanInv ms
           (redirectAll m (candidates ms (getCallsitesParentHash x m) m (depth x) xs) (hash x)) xs"
  unfolding scanInv_def
proof (intro allI impI)
  let ?p = "getCallsitesParentHash x m"
  let ?cs = "candidates ms ?p m (depth x) xs"
  let ?m' = "redirectAll m ?cs (hash x)"
  fix j k
  assume j: "j < length xs" and k: "k < j" and merged: "?m' (hash (xs ! j)) \<noteq> None"
  have dxs: "distinct xs" and inj: "inj_on hash (set xs)"
    using dist by (simp_all add: distinct_map)
  have xj: "xs ! j \<in> set xs" and xk: "xs ! k \<in> set xs"
    using j k by simp_all
  have same: "depth (xs ! k) = depth x \<and> depth (xs ! j) = depth x"
  proof (cases "hash (xs ! j) \<in> hash ` set ?cs")
    case True
    then have "xs ! j \<in> set ?cs"
      using inj xj candidates_subset [of ms ?p m "depth x" xs] sameRun_subset [of "depth x" xs]
      by (auto dest: inj_onD)
    then have "xs ! j \<in> set (sameRun (depth x) xs)"
      by (simp add: candidates_iff)
    with sameRun_prefix [OF dxs j] k have
      "xs ! j \<in> set (sameRun (depth x) xs)" "xs ! k \<in> set (sameRun (depth x) xs)"
      by simp_all
    then show ?thesis
      by (simp add: sameRun_depth)
  next
    case False
    with merged have old: "m (hash (xs ! j)) \<noteq> None"
      by (simp add: redirectAll_def)
    from scanInv_head(1) [OF inv xj old] have "depth (xs ! j) = depth x" by simp
    moreover from scanInv_tail [OF inv, unfolded scanInv_def, rule_format, OF j k old]
    have "depth (xs ! k) = depth (xs ! j)" by simp
    ultimately show ?thesis by simp
  qed
  have stk: "getCallsitesParentHash (xs ! k) ?m' = getCallsitesParentHash (xs ! k) m"
    by (rule redirectAll_parent, rule stable_in_run [OF np]) (use xk same in simp_all)
  have stj: "getCallsitesParentHash (xs ! j) ?m' = getCallsitesParentHash (xs ! j) m"
    by (rule redirectAll_parent, rule stable_in_run [OF np]) (use xj same in simp_all)
  have differ: "getCallsitesParentHash (xs ! k) m \<noteq> getCallsitesParentHash (xs ! j) m"
    if sk: "small ms (xs ! k)" and uk: "?m' (hash (xs ! k)) = None"
  proof (cases "hash (xs ! j) \<in> hash ` set ?cs")
    case True
    then have cj: "xs ! j \<in> set ?cs"
      using inj xj candidates_subset [of ms ?p m "depth x" xs] sameRun_subset [of "depth x" xs]
      by (auto dest: inj_onD)
    then have "xs ! j \<in> set (sameRun (depth x) xs)"
      by (simp add: candidates_iff)
    with sameRun_prefix [OF dxs j] k have "xs ! k \<in> set (sameRun (depth x) xs)"
      by simp
    moreover from uk have "xs ! k \<notin> set ?cs"
      by (auto simp: redirectAll_None)
    ultimately have "getCallsitesParentHash (xs ! k) m \<noteq> ?p"
      using sk by (simp add: candidates_iff)
    moreover from cj have "getCallsitesParentHash (xs ! j) m = ?p"
      by (simp add: candidates_iff)
    ultimately show ?thesis by simp
  next
    case False
    with merged have old: "m (hash (xs ! j)) \<noteq> None"
      by (simp add: redirectAll_def)
    from uk have "m (hash (xs ! k)) = None"
      by (simp add: redirectAll_None)
    with scanInv_tail [OF inv, unfolded scanInv_def, rule_format, OF j k old] sk
    show ?thesis by simp
  qed
  show "depth (xs ! k) = depth (xs ! j)
        \<and> (small ms (xs ! k) \<and> ?m' (hash (xs ! k)) = None \<longrightarrow>
             getCallsitesParentHash (xs ! k) ?m' \<noteq> getCallsitesParentHash (xs ! j) ?m')"
    using same differ by (simp add: stk stj)
qed

lemma bodyResult_closed:
  assumes np: "noParentAtSameDepth (x # xs)" and fresh: "m (hash x) = None" and small: "small ms x"
  shows "bodyResult ms x xs ([], m) =
           ([x\<lparr>parentHash := getCallsitesParentHash x m,
               totalSize := foldl jsAdd (totalSize x) (map totalSize
                 (candidates ms (getCallsitesParentHash x m) m (depth x) xs))\<rparr>],
            redirectAll m (candidates ms (getCallsitesParentHash x m) m (depth x) xs) (hash x))"
proof -
  let ?c = "x\<lparr>parentHash := getCallsitesParentHash x m\<rparr>"
  have "\<forall>a \<in> set (sameRun (depth ?c) xs). \<forall>b \<in> set (sameRun (depth ?c) xs).
          parentHash a \<noteq> hash b"
  proof (intro ballI)
    fix a b
    assume "a \<in> set (sameRun (depth ?c) xs)" "b \<in> set (sameRun (depth ?c) xs)"
    then have "a \<in> set (x # xs)" "b \<in> set (x # xs)" "depth b = depth a"
      using sameRun_subset [of "depth x" xs] sameRun_depth [of a "depth x" xs]
        sameRun_depth [of b "depth x" xs] by auto
    with noParentAtSameDepthD [OF np] show "parentHash a \<noteq> hash b"
      by metis
  qed
  from scanRun_closed [OF this, of ms m] fresh small show ?thesis
    by (simp add: bodyResult_def)
qed

lemma scanInv_body:
  assumes "scanInv ms m (x # xs)" and "distinct (map hash (x # xs))"
    and "noParentAtSameDepth (x # xs)"
  shows "scanInv ms (snd (bodyResult ms x xs ([], m))) xs"
proof (cases "m (hash x) = None \<and> small ms x")
  case True
  then show ?thesis
    using scanInv_step [OF assms] bodyResult_closed [where m = m, OF assms(3)] by simp
next
  case False
  then have "snd (bodyResult ms x xs ([], m)) = m"
    by (auto simp: bodyResult_snd)
  then show ?thesis
    using scanInv_tail [OF assms(1)] by simp
qed

lemma distinct_candidates: "distinct xs \<Longrightarrow> distinct (candidates ms p m d xs)"
  by (simp add: candidates_def sameRun_def)

lemma unmerged_split:
  assumes inv: "scanInv ms m (x # xs)"
    and dist: "distinct (map hash (x # xs))"
    and fresh: "m (hash x) = None"
    and small: "small ms x"
  shows "sum_list (map totalSize (candidates ms (getCallsitesParentHash x m) m (depth x) xs))
         + sum_list (map totalSize (filter (\<lambda>y.
             redirectAll m (candidates ms (getCallsitesParentHash x m) m (depth x) xs) (hash x)
               (hash y) = None) xs))
         = sum_list (map totalSize (filter (\<lambda>y. m (hash y) = None) xs))"
proof -
  let ?cs = "candidates ms (getCallsitesParentHash x m) m (depth x) xs"
  let ?m' = "redirectAll m ?cs (hash x)"
  have dxs: "distinct xs" and inj: "inj_on hash (set xs)"
    using dist by (simp_all add: distinct_map)
  have sub: "set ?cs \<subseteq> set xs"
    using candidates_subset [of ms _ m "depth x" xs] sameRun_subset [of "depth x" xs] by blast
  have cs_unmerged: "set ?cs \<subseteq> set (filter (\<lambda>y. m (hash y) = None) xs)"
    using sub candidates_unmerged [OF inv small fresh] by auto
  have "hash y \<in> hash ` set ?cs \<longleftrightarrow> y \<in> set ?cs" if "y \<in> set xs" for y
    using that sub inj by (auto dest: inj_onD)
  then have rest: "set (filter (\<lambda>y. ?m' (hash y) = None) xs)
                = set (filter (\<lambda>y. m (hash y) = None) xs) - set ?cs"
    by (auto simp: redirectAll_None)
  have "sum_list (map totalSize ?cs) = sum totalSize (set ?cs)"
    by (rule sum_list_distinct_conv_sum_set) (rule distinct_candidates [OF dxs])
  moreover have "sum_list (map totalSize (filter (\<lambda>y. ?m' (hash y) = None) xs))
               = sum totalSize (set (filter (\<lambda>y. m (hash y) = None) xs) - set ?cs)"
    unfolding rest [symmetric]
    by (rule sum_list_distinct_conv_sum_set) (simp add: dxs)
  moreover have "sum_list (map totalSize (filter (\<lambda>y. m (hash y) = None) xs))
               = sum totalSize (set (filter (\<lambda>y. m (hash y) = None) xs))"
    by (rule sum_list_distinct_conv_sum_set) (simp add: dxs)
  moreover have "sum totalSize (set (filter (\<lambda>y. m (hash y) = None) xs))
        = sum totalSize (set (filter (\<lambda>y. m (hash y) = None) xs) - set ?cs)
          + sum totalSize (set ?cs)"
    by (rule sum.subset_diff [OF cs_unmerged]) simp
  ultimately show ?thesis by simp
qed

lemma candidates_abs_le:
  "sum_list (map (\<lambda>y. \<bar>totalSize y\<bar>) (candidates ms p m d xs))
     \<le> sum_list (map (\<lambda>y. \<bar>totalSize y\<bar>) xs)"
  unfolding candidates_def sameRun_def
  by (rule sum_list_filter_takeWhile_le) simp

lemma mergeRest_conserves:
  "distinct (map hash xs) \<Longrightarrow> noParentAtSameDepth xs \<Longrightarrow> scanInv ms m xs \<Longrightarrow>
   sum_list (map (\<lambda>x. \<bar>totalSize x\<bar>) xs) \<le> 9007199254740992 \<Longrightarrow>
   sum_list (map totalSize (fst (mergeRest ms m xs)))
     = sum_list (map totalSize (filter (\<lambda>x. m (hash x) = None) xs))"
proof (induction xs arbitrary: m)
  case Nil
  then show ?case by simp
next
  case (Cons x xs)
  let ?m' = "snd (bodyResult ms x xs ([], m))"
  have rest: "sum_list (map totalSize (fst (mergeRest ms ?m' xs)))
                = sum_list (map totalSize (filter (\<lambda>y. ?m' (hash y) = None) xs))"
  proof (rule Cons.IH)
    show "distinct (map hash xs)" using Cons.prems(1) by simp
    show "noParentAtSameDepth xs" by (rule noParentAtSameDepth_tail [OF Cons.prems(2)])
    show "scanInv ms ?m' xs" by (rule scanInv_body [OF Cons.prems(3,1,2)])
    have "0 \<le> \<bar>totalSize x\<bar>" by simp
    with Cons.prems(4) show "sum_list (map (\<lambda>x. \<bar>totalSize x\<bar>) xs) \<le> 9007199254740992"
      by simp
  qed
  show ?case
  proof (cases "m (hash x) = None \<and> small ms x")
    case True
    then have fresh: "m (hash x) = None" and small: "small ms x" by simp_all
    note closed = bodyResult_closed [where m = m, OF Cons.prems(2) fresh small]
    let ?cs = "candidates ms (getCallsitesParentHash x m) m (depth x) xs"
    have "\<bar>totalSize x\<bar> + sum_list (map abs (map totalSize ?cs)) \<le> 9007199254740992"
      using candidates_abs_le [of ms "getCallsitesParentHash x m" m "depth x" xs] Cons.prems(4)
      by (simp add: comp_def)
    then have exact: "foldl jsAdd (totalSize x) (map totalSize ?cs)
                        = totalSize x + sum_list (map totalSize ?cs)"
      by (rule foldl_jsAdd_exact)
    show ?thesis
      unfolding mergeRest_fst_Cons
      using rest unmerged_split [OF Cons.prems(3,1) fresh small] fresh
      by (simp add: closed exact)
  next
    case False
    then have "?m' = m"
      by (auto simp: bodyResult_snd)
    with rest False show ?thesis
      unfolding mergeRest_fst_Cons by (auto simp: bodyResult_fst)
  qed
qed

lemma scanInv_empty: "scanInv ms Map.empty xs"
  by (simp add: scanInv_def)

section \<open>Which records are merged\<close>

lemma parentsShallower_noParentAtSameDepth:
  "parentsShallower zs \<Longrightarrow> noParentAtSameDepth zs"
  unfolding parentsShallower_def noParentAtSameDepth_def by (metis less_irrefl)

lemma parentsShallower_tail: "parentsShallower (x # xs) \<Longrightarrow> parentsShallower xs"
  by (simp add: parentsShallower_def)

lemma sameRun_sorted:
  "sorted (map depth xs) \<Longrightarrow> \<forall>z \<in> set xs. d \<le> depth z \<Longrightarrow> y \<in> set xs \<Longrightarrow> depth y = d
   \<Longrightarrow> y \<in> set (sameRun d xs)"
proof (induction xs)
  case Nil
  then show ?case by simp
next
  case (Cons x xs)
  show ?case
  proof (cases "depth x = d")
    case True
    with Cons show ?thesis
      by (auto simp: sameRun_Cons)
  next
    case False
    with Cons.prems(2) have "d < depth x" by force
    moreover from Cons.prems(1) have "\<forall>z \<in> set xs. depth x \<le> depth z" by simp
    ultimately have "\<forall>z \<in> set (x # xs). depth z \<noteq> d" by auto
    with Cons.prems(3,4) show ?thesis by blast
  qed
qed

lemma sameRun_head:
  assumes "sorted (map depth (x # xs))" and "y \<in> set xs" and "depth y = depth x"
  shows "y \<in> set (sameRun (depth x) xs)"
  using assms by (intro sameRun_sorted) auto

text \<open>The parent hash of a record of the first depth is the hash of no record ahead.\<close>

lemma parent_not_ahead:
  assumes "sorted (map depth (x # xs))" and "parentsShallower (x # xs)"
    and "y \<in> set (x # xs)" and "depth y = depth x"
  shows "parentHash y \<notin> hash ` set (x # xs)"
proof
  assume "parentHash y \<in> hash ` set (x # xs)"
  then obtain z where z: "z \<in> set (x # xs)" "hash z = parentHash y"
    by (metis imageE)
  with assms(2,3) have "depth z < depth y"
    unfolding parentsShallower_def by blast
  moreover from assms(1) z(1) have "depth x \<le> depth z" by auto
  ultimately show False using assms(4) by simp
qed

lemma getCallsitesParentHash_cong:
  "m1 (parentHash y) = m2 (parentHash y) \<Longrightarrow>
   getCallsitesParentHash y m1 = getCallsitesParentHash y m2"
  by (simp add: getCallsitesParentHash_def)

lemma parent_stable:
  assumes "sorted (map depth (x # xs))" and "parentsShallower (x # xs)"
    and "y \<in> set (x # xs)" and "depth y = depth x"
  shows "getCallsitesParentHash y (snd (mergeRest ms m (x # xs))) = getCallsitesParentHash y m"
  by (rule getCallsitesParentHash_cong, rule mergeRest_outside, rule parent_not_ahead [OF assms])

lemma bodyResult_map_le:
  assumes "scanInv ms m (x # xs)" and "noParentAtSameDepth (x # xs)" and "m h = Some v"
  shows "snd (bodyResult ms x xs ([], m)) h = Some v"
proof (cases "m (hash x) = None \<and> small ms x")
  case True
  then have fresh: "m (hash x) = None" and small: "small ms x" by simp_all
  have "h \<notin> hash ` set (candidates ms (getCallsitesParentHash x m) m (depth x) xs)"
    using candidates_unmerged [OF assms(1) small fresh] assms(3) by auto
  then show ?thesis
    using bodyResult_closed [where m = m, OF assms(2) fresh small] assms(3)
    by (simp add: redirectAll_def)
next
  case False
  then have "snd (bodyResult ms x xs ([], m)) = m"
    by (auto simp: bodyResult_snd)
  with assms(3) show ?thesis by simp
qed

lemma mergeRest_map_le:
  "distinct (map hash xs) \<Longrightarrow> noParentAtSameDepth xs \<Longrightarrow> scanInv ms m xs \<Longrightarrow> m h = Some v
   \<Longrightarrow> snd (mergeRest ms m xs) h = Some v"
proof (induction xs arbitrary: m)
  case Nil
  then show ?case by simp
next
  case (Cons x xs)
  show ?case
    unfolding mergeRest_snd_Cons
  proof (rule Cons.IH)
    show "distinct (map hash xs)" using Cons.prems(1) by simp
    show "noParentAtSameDepth xs" by (rule noParentAtSameDepth_tail [OF Cons.prems(2)])
    show "scanInv ms (snd (bodyResult ms x xs ([], m))) xs"
      by (rule scanInv_body [OF Cons.prems(3,1,2)])
    show "snd (bodyResult ms x xs ([], m)) h = Some v"
      by (rule bodyResult_map_le [OF Cons.prems(3,2,4)])
  qed
qed

lemma mergeRest_head_unmerged:
  assumes "distinct (map hash (x # xs))" and "m (hash x) = None"
  shows "snd (mergeRest ms m (x # xs)) (hash x) = None"
proof -
  from assms(1) have "hash x \<notin> hash ` set xs" by simp
  then show ?thesis
    unfolding mergeRest_snd_Cons
    by (simp add: mergeRest_outside bodyResult_outside assms(2))
qed

text \<open>A candidate of the head is redirected to the head for good.\<close>

lemma candidate_redirected:
  assumes sorted: "sorted (map depth (x # xs))"
    and dist: "distinct (map hash (x # xs))"
    and tree: "parentsShallower (x # xs)"
    and inv: "scanInv ms m (x # xs)"
    and fresh: "m (hash x) = None" and small: "small ms x"
    and y: "y \<in> set (candidates ms (getCallsitesParentHash x m) m (depth x) xs)"
  shows "snd (mergeRest ms m (x # xs)) (hash y) = Some (hash x)"
proof -
  note np = parentsShallower_noParentAtSameDepth [OF tree]
  let ?m' = "snd (bodyResult ms x xs ([], m))"
  have "?m' (hash y) = Some (hash x)"
    using bodyResult_closed [where m = m, OF np fresh small] y
    by (simp add: redirectAll_def)
  then show ?thesis
    unfolding mergeRest_snd_Cons
    using dist noParentAtSameDepth_tail [OF np] scanInv_body [OF inv dist np]
    by (intro mergeRest_map_le) simp_all
qed

lemma same_group_merged:
  assumes "sorted (map depth xs)" and "distinct (map hash xs)" and "parentsShallower xs"
    and "scanInv ms m xs"
    and "r < k" and "k < length xs"
    and "snd (mergeRest ms m xs) (hash (xs ! r)) = None"
    and "depth (xs ! r) = depth (xs ! k)"
    and "small ms (xs ! r)" and "small ms (xs ! k)"
    and "getCallsitesParentHash (xs ! r) (snd (mergeRest ms m xs))
          = getCallsitesParentHash (xs ! k) (snd (mergeRest ms m xs))"
  shows "snd (mergeRest ms m xs) (hash (xs ! k)) = Some (hash (xs ! r))"
  using assms
proof (induction xs arbitrary: m r k)
  case Nil
  then show ?case by simp
next
  case (Cons x xs)
  note np = parentsShallower_noParentAtSameDepth [OF Cons.prems(3)]
  let ?mf = "snd (mergeRest ms m (x # xs))"
  from Cons.prems(5) obtain k' where k': "k = Suc k'" by (cases k) auto
  with Cons.prems(6) have k'len: "k' < length xs" by simp
  show ?case
  proof (cases r)
    case 0
    let ?y = "xs ! k'"
    have yin: "?y \<in> set xs" using k'len by simp
    have fresh: "m (hash x) = None"
    proof (rule ccontr)
      assume "m (hash x) \<noteq> None"
      then have "hash x \<in> dom m" by (simp add: domIff)
      from mergeRest_dom_mono [OF this, of ms "x # xs"] Cons.prems(7) 0 show False
        by (simp add: domIff)
    qed
    have small: "small ms x" using Cons.prems(9) 0 by simp
    have dy: "depth ?y = depth x" using Cons.prems(8) 0 k' by simp
    have "getCallsitesParentHash ?y m = getCallsitesParentHash ?y ?mf"
      using parent_stable [OF Cons.prems(1,3) _ dy, of ms m] yin by simp
    moreover have "getCallsitesParentHash x m = getCallsitesParentHash x ?mf"
      using parent_stable [OF Cons.prems(1,3), of x ms m] by simp
    ultimately have "getCallsitesParentHash ?y m = getCallsitesParentHash x m"
      using Cons.prems(11) 0 k' by simp
    moreover have "?y \<in> set (sameRun (depth x) xs)"
      by (rule sameRun_head [OF Cons.prems(1) yin dy])
    ultimately have "?y \<in> set (candidates ms (getCallsitesParentHash x m) m (depth x) xs)"
      using Cons.prems(10) k' by (simp add: candidates_iff)
    from candidate_redirected [OF Cons.prems(1,2,3,4) fresh small this]
    show ?thesis using 0 k' by simp
  next
    case (Suc r')
    let ?m' = "snd (bodyResult ms x xs ([], m))"
    have eq: "?mf = snd (mergeRest ms ?m' xs)"
      by (rule mergeRest_snd_Cons)
    have "snd (mergeRest ms ?m' xs) (hash (xs ! k')) = Some (hash (xs ! r'))"
    proof (rule Cons.IH)
      show "sorted (map depth xs)" using Cons.prems(1) by simp
      show "distinct (map hash xs)" using Cons.prems(2) by simp
      show "parentsShallower xs" by (rule parentsShallower_tail [OF Cons.prems(3)])
      show "scanInv ms ?m' xs" by (rule scanInv_body [OF Cons.prems(4,2) np])
      show "r' < k'" using Cons.prems(5) Suc k' by simp
      show "k' < length xs" by (rule k'len)
      show "snd (mergeRest ms ?m' xs) (hash (xs ! r')) = None"
        using Cons.prems(7) Suc eq by simp
      show "depth (xs ! r') = depth (xs ! k')" using Cons.prems(8) Suc k' by simp
      show "small ms (xs ! r')" using Cons.prems(9) Suc by simp
      show "small ms (xs ! k')" using Cons.prems(10) k' by simp
      show "getCallsitesParentHash (xs ! r') (snd (mergeRest ms ?m' xs))
              = getCallsitesParentHash (xs ! k') (snd (mergeRest ms ?m' xs))"
        using Cons.prems(11) Suc k' eq by simp
    qed
    then show ?thesis using Suc k' eq by simp
  qed
qed


lemma merged_from_group:
  assumes "sorted (map depth xs)" and "distinct (map hash xs)" and "parentsShallower xs"
    and "scanInv ms m xs"
    and "k < length xs"
    and "snd (mergeRest ms m xs) (hash (xs ! k)) = Some h"
    and "m (hash (xs ! k)) = None"
  shows "\<exists>r < k. hash (xs ! r) = h \<and> snd (mergeRest ms m xs) (hash (xs ! r)) = None
           \<and> depth (xs ! r) = depth (xs ! k) \<and> small ms (xs ! r) \<and> small ms (xs ! k)
           \<and> getCallsitesParentHash (xs ! r) (snd (mergeRest ms m xs))
               = getCallsitesParentHash (xs ! k) (snd (mergeRest ms m xs))"
  using assms
proof (induction xs arbitrary: m k)
  case Nil
  then show ?case by simp
next
  case (Cons x xs)
  note np = parentsShallower_noParentAtSameDepth [OF Cons.prems(3)]
  let ?mf = "snd (mergeRest ms m (x # xs))"
  let ?m' = "snd (bodyResult ms x xs ([], m))"
  have eq: "?mf = snd (mergeRest ms ?m' xs)"
    by (rule mergeRest_snd_Cons)
  show ?case
  proof (cases k)
    case 0
    with Cons.prems(7) mergeRest_head_unmerged [OF Cons.prems(2), of m ms] Cons.prems(6)
    show ?thesis by simp
  next
    case (Suc k')
    with Cons.prems(5) have k'len: "k' < length xs" by simp
    let ?y = "xs ! k'"
    have yin: "?y \<in> set xs" using k'len by simp
    show ?thesis
    proof (cases "?m' (hash ?y) = None")
      case True
      have "\<exists>r < k'. hash (xs ! r) = h \<and> snd (mergeRest ms ?m' xs) (hash (xs ! r)) = None
           \<and> depth (xs ! r) = depth (xs ! k') \<and> small ms (xs ! r) \<and> small ms (xs ! k')
           \<and> getCallsitesParentHash (xs ! r) (snd (mergeRest ms ?m' xs))
               = getCallsitesParentHash (xs ! k') (snd (mergeRest ms ?m' xs))"
      proof (rule Cons.IH)
        show "sorted (map depth xs)" using Cons.prems(1) by simp
        show "distinct (map hash xs)" using Cons.prems(2) by simp
        show "parentsShallower xs" by (rule parentsShallower_tail [OF Cons.prems(3)])
        show "scanInv ms ?m' xs" by (rule scanInv_body [OF Cons.prems(4,2) np])
        show "k' < length xs" by (rule k'len)
        show "snd (mergeRest ms ?m' xs) (hash (xs ! k')) = Some h"
          using Cons.prems(6) Suc eq by simp
        show "?m' (hash (xs ! k')) = None" by (rule True)
      qed
      then obtain r where r: "r < k'" "hash (xs ! r) = h"
        "snd (mergeRest ms ?m' xs) (hash (xs ! r)) = None"
        "depth (xs ! r) = depth (xs ! k')" "small ms (xs ! r)" "small ms (xs ! k')"
        "getCallsitesParentHash (xs ! r) (snd (mergeRest ms ?m' xs))
               = getCallsitesParentHash (xs ! k') (snd (mergeRest ms ?m' xs))"
        by blast
      show ?thesis
      proof (intro exI [of _ "Suc r"] conjI)
        show "Suc r < k" using r(1) Suc by simp
      qed (use r Suc eq in simp_all)
    next
      case False
      have old: "m (hash ?y) = None" using Cons.prems(7) Suc by simp
      with False have scanned: "m (hash x) = None \<and> small ms x"
        by (auto simp: bodyResult_snd split: if_splits)
      then have fresh: "m (hash x) = None" and small: "small ms x" by simp_all
      let ?cs = "candidates ms (getCallsitesParentHash x m) m (depth x) xs"
      have "?m' = redirectAll m ?cs (hash x)"
        using bodyResult_closed [where m = m, OF np fresh small] by simp
      with False old have "hash ?y \<in> hash ` set ?cs"
        by (simp add: redirectAll_def split: if_splits)
      then obtain c where c: "c \<in> set ?cs" "hash c = hash ?y" by auto
      have "c \<in> set xs"
        using c(1) candidates_subset [of ms _ m "depth x" xs] sameRun_subset [of "depth x" xs]
        by blast
      moreover have "inj_on hash (set xs)"
        using Cons.prems(2) by (simp add: distinct_map)
      ultimately have "c = ?y"
        using c(2) yin by (auto dest: inj_onD)
      with c(1) have cand: "?y \<in> set ?cs" by simp
      from candidate_redirected [OF Cons.prems(1,2,3,4) fresh small cand] Cons.prems(6) Suc
      have h: "h = hash x" by simp
      from cand have facts: "?y \<in> set (sameRun (depth x) xs)"
        "getCallsitesParentHash ?y m = getCallsitesParentHash x m" "small ms ?y"
        by (simp_all add: candidates_iff)
      have dy: "depth ?y = depth x"
        by (rule sameRun_depth [OF facts(1)])
      have "getCallsitesParentHash ?y ?mf = getCallsitesParentHash ?y m"
        using parent_stable [OF Cons.prems(1,3) _ dy, of ms m] yin by simp
      moreover have "getCallsitesParentHash x ?mf = getCallsitesParentHash x m"
        using parent_stable [OF Cons.prems(1,3), of x ms m] by simp
      ultimately have same: "getCallsitesParentHash x ?mf = getCallsitesParentHash ?y ?mf"
        using facts(2) by simp
      have un: "?mf (hash x) = None"
        by (rule mergeRest_head_unmerged [where m = m, OF Cons.prems(2) fresh])
      show ?thesis
      proof (intro exI [of _ 0] conjI)
        show "0 < k" using Suc by simp
      qed (use h un dy small facts(3) same Suc in simp_all)
    qed
  qed
qed

lemma hash_index:
  assumes "distinct (map hash xs)" and "a < length xs" and "b < length xs"
    and "hash (xs ! a) = hash (xs ! b)"
  shows "a = b"
proof -
  from assms(2,3,4) have "map hash xs ! a = map hash xs ! b" by simp
  with assms(1,2,3) nth_eq_iff_index_eq [of "map hash xs" a b] show ?thesis
    by simp
qed


section \<open>Small nodes of the output\<close>

lemma mergeRest_provenance:
  "c \<in> set (fst (mergeRest ms m xs)) \<Longrightarrow>
   \<exists>y \<in> set xs. \<exists>m1. m (hash y) = None \<and> depth c = depth y
      \<and> parentHash c = getCallsitesParentHash y m1
      \<and> (\<forall>h. h \<notin> hash ` set xs \<longrightarrow> m1 h = m h)
      \<and> (\<not> small ms y \<longrightarrow> totalSize c = totalSize y)"
proof (induction xs arbitrary: m)
  case Nil
  then show ?case by simp
next
  case (Cons x xs)
  let ?m' = "snd (bodyResult ms x xs ([], m))"
  from Cons.prems consider
    (head) "c \<in> set (fst (bodyResult ms x xs ([], m)))"
    | (rest) "c \<in> set (fst (mergeRest ms ?m' xs))"
    unfolding mergeRest_fst_Cons by auto
  then show ?case
  proof cases
    case head
    then have "m (hash x) = None \<and> depth c = depth x
       \<and> parentHash c = getCallsitesParentHash x m
       \<and> (\<not> small ms x \<longrightarrow> totalSize c = totalSize x)"
      by (auto simp: bodyResult_fst split: if_splits)
    then show ?thesis by auto
  next
    case rest
    from Cons.IH [OF rest] obtain y m1 where y: "y \<in> set xs" "?m' (hash y) = None"
      "depth c = depth y" "parentHash c = getCallsitesParentHash y m1"
      "\<forall>h. h \<notin> hash ` set xs \<longrightarrow> m1 h = ?m' h"
      "\<not> small ms y \<longrightarrow> totalSize c = totalSize y"
      by blast
    have "m (hash y) = None"
    proof (rule ccontr)
      assume "m (hash y) \<noteq> None"
      then have "hash y \<in> dom m" by (simp add: domIff)
      from bodyResult_dom_mono [OF this, of ms x xs] y(2) show False
        by (simp add: domIff)
    qed
    moreover have "\<forall>h. h \<notin> hash ` set (x # xs) \<longrightarrow> m1 h = m h"
      using y(5) bodyResult_outside [of _ xs ms x m] by auto
    ultimately show ?thesis
      using y(1,3,4,6) by auto
  qed
qed

lemma one_small_per_group:
  assumes "sorted (map depth xs)" and "parentsShallower xs"
    and "a < b" and "b < length (fst (mergeRest ms m xs))"
    and "depth (fst (mergeRest ms m xs) ! a) = depth (fst (mergeRest ms m xs) ! b)"
    and "parentHash (fst (mergeRest ms m xs) ! a) = parentHash (fst (mergeRest ms m xs) ! b)"
  shows "\<not> small ms (fst (mergeRest ms m xs) ! a) \<or> \<not> small ms (fst (mergeRest ms m xs) ! b)"
  using assms
proof (induction xs arbitrary: m a b)
  case Nil
  then show ?case by simp
next
  case (Cons x xs)
  note np = parentsShallower_noParentAtSameDepth [OF Cons.prems(2)]
  let ?m' = "snd (bodyResult ms x xs ([], m))"
  let ?rest = "fst (mergeRest ms ?m' xs)"
  have s': "sorted (map depth xs)" using Cons.prems(1) by simp
  note t' = parentsShallower_tail [OF Cons.prems(2)]
  show ?case
  proof (cases "m (hash x) = None")
    case False
    then have out: "fst (mergeRest ms m (x # xs)) = ?rest"
      unfolding mergeRest_fst_Cons by (simp add: bodyResult_fst)
    show ?thesis
      using Cons.IH [OF s' t', of a b ?m'] Cons.prems(3-6) unfolding out by simp
  next
    case fresh: True
    let ?p = "getCallsitesParentHash x m"
    have "\<exists>c. fst (bodyResult ms x xs ([], m)) = [c] \<and> depth c = depth x
            \<and> parentHash c = ?p \<and> (\<not> small ms x \<longrightarrow> totalSize c = totalSize x)"
      using fresh by (cases "small ms x") (simp_all add: bodyResult_fst)
    then obtain c where c: "fst (bodyResult ms x xs ([], m)) = [c]"
      and cf: "depth c = depth x" "parentHash c = ?p" "\<not> small ms x \<longrightarrow> totalSize c = totalSize x"
      by blast
    have out: "fst (mergeRest ms m (x # xs)) = c # ?rest"
      unfolding mergeRest_fst_Cons by (simp add: c)
    from Cons.prems(3) obtain b' where b': "b = Suc b'" by (cases b) auto
    with Cons.prems(4) have b'len: "b' < length ?rest" unfolding out by simp
    show ?thesis
    proof (cases a)
      case (Suc a')
      show ?thesis
        using Cons.IH [OF s' t', of a' b' ?m'] Cons.prems(3-6) Suc b' unfolding out by simp
    next
      case 0
      let ?c2 = "?rest ! b'"
      have c2in: "?c2 \<in> set ?rest" using b'len by simp
      have grp: "depth ?c2 = depth x" "parentHash ?c2 = ?p"
        using Cons.prems(5,6) 0 b' cf unfolding out by simp_all
      from mergeRest_provenance [OF c2in] obtain y m1 where y: "y \<in> set xs"
        "?m' (hash y) = None" "depth ?c2 = depth y"
        "parentHash ?c2 = getCallsitesParentHash y m1"
        "\<forall>h. h \<notin> hash ` set xs \<longrightarrow> m1 h = ?m' h"
        "\<not> small ms y \<longrightarrow> totalSize ?c2 = totalSize y"
        by blast
      show ?thesis
      proof (rule ccontr)
        assume "\<not> ?thesis"
        then have both: "small ms c" "small ms ?c2"
          unfolding out using 0 b' by simp_all
        have small: "small ms x" using both(1) cf(3) by auto
        have smally: "small ms y" using both(2) y(6) by auto
        let ?cs = "candidates ms ?p m (depth x) xs"
        have m': "?m' = redirectAll m ?cs (hash x)"
          using bodyResult_closed [where m = m, OF np fresh small] by simp
        have dy: "depth y = depth x" using y(3) grp(1) by simp
        have yin: "y \<in> set (x # xs)" using y(1) by simp
        have notahead: "parentHash y \<notin> hash ` set (x # xs)"
          by (rule parent_not_ahead [OF Cons.prems(1,2) yin dy])
        then have "m1 (parentHash y) = ?m' (parentHash y)"
          using y(5) by simp
        moreover have "parentHash y \<notin> hash ` set ?cs"
          using notahead candidates_subset [of ms ?p m "depth x" xs]
            sameRun_subset [of "depth x" xs] by auto
        then have "?m' (parentHash y) = m (parentHash y)"
          unfolding m' by (simp add: redirectAll_def)
        ultimately have "getCallsitesParentHash y m = getCallsitesParentHash y m1"
          by (intro getCallsitesParentHash_cong) simp
        then have "getCallsitesParentHash y m = ?p"
          using y(4) grp(2) by simp
        moreover have "y \<in> set (sameRun (depth x) xs)"
          by (rule sameRun_head [OF Cons.prems(1) y(1) dy])
        ultimately have "y \<in> set ?cs"
          using smally by (simp add: candidates_iff)
        then have "?m' (hash y) = Some (hash x)"
          unfolding m' by (simp add: redirectAll_def)
        with y(2) show False by simp
      qed
    qed
  qed
qed

section \<open>The store model computes the same records\<close>

lemma mergeWhileH_scanRun:
  assumes valid: "validRefs h0 data" and c: "length h0 \<le> c" "c < length h"
    and agree: "\<forall>a < length h0. h ! a = h0 ! a"
    and j: "j \<le> length data"
  shows "mergeWhileH data ms j (elemAt data j) c h m =
           Inr (h[c := fst (scanRun ms (h ! c) m (drop j (deref h0 data)))],
                snd (scanRun ms (h ! c) m (drop j (deref h0 data))))"
  using c agree j
proof (induction "length data - j" arbitrary: j h m)
  case 0
  then show ?case
    by (subst mergeWhileH.simps) (simp add: deref_def)
next
  case (Suc n)
  then have lt: "j < length data" by simp
  let ?nc = "data ! j"
  have nc: "?nc < length h0" using valid lt by (simp add: validRefs_def)
  have ncv: "h ! ?nc = h0 ! ?nc" using Suc.prems(3) nc by simp
  have ne: "?nc \<noteq> c" using nc Suc.prems(1) by simp
  have here: "elemAt data j = Some ?nc" using lt by (simp add: elemAt_def)
  have dr: "drop j (deref h0 data) = h0 ! ?nc # drop (Suc j) (deref h0 data)"
    using lt by (simp add: deref_def Cons_nth_drop_Suc [symmetric])
  have step: "mergeWhileH data ms (Suc j) (elemAt data (Suc j)) c h' m' =
           Inr (h'[c := fst (scanRun ms (h' ! c) m' (drop (Suc j) (deref h0 data)))],
                snd (scanRun ms (h' ! c) m' (drop (Suc j) (deref h0 data))))"
    if "c < length h'" "\<forall>a < length h0. h' ! a = h0 ! a" for h' m'
    using Suc.hyps(1) [of "Suc j" h' m'] Suc.hyps(2) Suc.prems(1) lt that by simp
  show ?case
  proof (cases "depth (h ! c) = depth (h0 ! ?nc)")
    case False
    then show ?thesis
      using lt by (subst mergeWhileH.simps) (simp add: here ncv dr)
  next
    case True
    show ?thesis
    proof (cases "parentHash (h ! c) = getCallsitesParentHash (h0 ! ?nc) m \<and> small ms (h0 ! ?nc)")
      case False
      then show ?thesis
        using lt True step [OF Suc.prems(2,3)]
        by (subst mergeWhileH.simps) (auto simp: here ncv dr)
    next
      case match: True
      let ?v = "(h ! c)\<lparr>totalSize := jsAdd (totalSize (h ! c)) (totalSize (h0 ! ?nc))\<rparr>"
      let ?h' = "h[c := ?v]"
      have len: "c < length ?h'" using Suc.prems(2) by simp
      have ag: "\<forall>a < length h0. ?h' ! a = h0 ! a"
        using Suc.prems(1,3) by (simp add: nth_list_update)
      have hc: "?h' ! c = ?v" using Suc.prems(2) by simp
      have hn: "?h' ! ?nc = h0 ! ?nc" using ne ncv by simp
      show ?thesis
        using lt True match step [OF len ag]
        by (subst mergeWhileH.simps) (simp add: here ncv dr hc hn Let_def)
    qed
  qed
qed


lemma forBodyH_bodyResult:
  assumes valid: "validRefs h0 data" and i: "i < length data"
    and res: "bodyResult ms (h0 ! (data ! i)) (drop (Suc i) (deref h0 data)) (objs, m) = (objs', m')"
  shows "forBodyH data ms i (h0 @ objs, [length h0 ..< length h0 + length objs], m) =
           Inr (h0 @ objs', [length h0 ..< length h0 + length objs'], m')"
proof -
  define h where "h = h0 @ objs"
  define md where "md = [length h0 ..< length h0 + length objs]"
  define x where "x = h0 ! (data ! i)"
  define x' where "x' = x\<lparr>parentHash := getCallsitesParentHash x m\<rparr>"
  define rest where "rest = drop (Suc i) (deref h0 data)"
  have di: "data ! i < length h0" using valid i by (simp add: validRefs_def)
  have here: "elemAt data i = Some (data ! i)" using i by (simp add: elemAt_def)
  have hx: "h ! (data ! i) = x" using di by (simp add: h_def x_def nth_append)
  have copy: "copyCallsiteH h (data ! i) = (length h, h @ [x])"
    by (simp add: copyCallsiteH_def hx)
  have h2: "(h @ [x])[length h := ((h @ [x]) ! length h)
              \<lparr>parentHash := getCallsitesParentHash ((h @ [x]) ! length h) m\<rparr>] = h @ [x']"
    by (simp add: x'_def)
  have h2c: "(h @ [x']) ! length h = x'" by simp
  have "forBodyH data ms i (h, md, m) = Inr (h0 @ objs', [length h0 ..< length h0 + length objs'], m')"
  proof (cases "m (hash x) = None")
    case False
    with res have "objs' = objs" "m' = m"
      by (auto simp: bodyResult_def x_def)
    with False show ?thesis
      by (simp add: forBodyH_def here hx) (simp add: h_def md_def)
  next
    case fresh: True
    have body: "forBodyH data ms i (h, md, m) =
        (if small ms x' \<and> Suc i < length data
         then (case mergeWhileH data ms (Suc i) (elemAt data (Suc i)) (length h) (h @ [x']) m of
                 Inl e \<Rightarrow> Inl e
               | Inr (h3, m3) \<Rightarrow> Inr (h3, md @ [length h], m3))
         else Inr (h @ [x'], md @ [length h], m))"
      using fresh by (simp add: forBodyH_def here hx copy Let_def x'_def)
    have sm: "small ms x' = small ms x" by (simp add: x'_def)
    show ?thesis
    proof (cases "small ms x \<and> Suc i < length data")
      case True
      have "mergeWhileH data ms (Suc i) (elemAt data (Suc i)) (length h) (h @ [x']) m =
              Inr ((h @ [x'])[length h := fst (scanRun ms ((h @ [x']) ! length h) m
                                                (drop (Suc i) (deref h0 data)))],
                   snd (scanRun ms ((h @ [x']) ! length h) m (drop (Suc i) (deref h0 data))))"
        by (rule mergeWhileH_scanRun [OF valid])
           (use True in \<open>auto simp: h_def nth_append\<close>)
      then have w: "mergeWhileH data ms (Suc i) (elemAt data (Suc i)) (length h) (h @ [x']) m =
              Inr (h @ [fst (scanRun ms x' m rest)], snd (scanRun ms x' m rest))"
        unfolding h2c rest_def by simp
      from res fresh True have r: "objs' = objs @ [fst (scanRun ms x' m rest)]"
        "m' = snd (scanRun ms x' m rest)"
        by (auto simp: bodyResult_def x_def x'_def rest_def split: prod.splits)
      have "forBodyH data ms i (h, md, m) =
              Inr (h @ [fst (scanRun ms x' m rest)], md @ [length h], snd (scanRun ms x' m rest))"
        unfolding body using True by (simp add: sm w)
      then show ?thesis
        by (simp add: r h_def md_def)
    next
      case False
      have "rest = []" if "\<not> Suc i < length data"
        using that by (simp add: deref_def rest_def)
      with res fresh False have r: "objs' = objs @ [x']" "m' = m"
        by (auto simp: bodyResult_def x_def x'_def rest_def split: prod.splits)
      have "forBodyH data ms i (h, md, m) = Inr (h @ [x'], md @ [length h], m)"
        unfolding body using False by (auto simp: sm)
      then show ?thesis
        by (simp add: r h_def md_def)
    qed
  qed
  then show ?thesis
    by (simp add: h_def md_def)
qed

lemma mergeForH_mergeFor:
  assumes valid: "validRefs h0 data"
  shows "i \<le> length data \<Longrightarrow> mergeFor (deref h0 data) ms i (objs, m) = Inr (objs', m') \<Longrightarrow>
         mergeForH data ms i (h0 @ objs, [length h0 ..< length h0 + length objs], m) =
           Inr (h0 @ objs', [length h0 ..< length h0 + length objs'], m')"
proof (induction "length data - i" arbitrary: i objs m)
  case 0
  then have stop: "\<not> i < length (deref h0 data)" "\<not> i < length data"
    by (simp_all add: deref_def)
  from 0(3) stop(1) have "objs' = objs" "m' = m"
    by (subst (asm) mergeFor.simps, simp)+
  with stop(2) show ?case
    by (subst mergeForH.simps) simp
next
  case (Suc n)
  then have lt: "i < length data" by simp
  then have lt': "i < length (deref h0 data)" by (simp add: deref_def)
  obtain o1 m1 where
    b: "bodyResult ms (h0 ! (data ! i)) (drop (Suc i) (deref h0 data)) (objs, m) = (o1, m1)"
    by (cases "bodyResult ms (h0 ! (data ! i)) (drop (Suc i) (deref h0 data)) (objs, m)")
  have "forBody (deref h0 data) ms i (objs, m) = Inr (o1, m1)"
    using forBody_bodyResult [OF lt', of ms "(objs, m)"] b lt by (simp add: deref_def)
  with Suc.prems(2) lt' have after: "mergeFor (deref h0 data) ms (Suc i) (o1, m1) = Inr (objs', m')"
    by (subst (asm) mergeFor.simps) simp
  have "mergeForH data ms (Suc i) (h0 @ o1, [length h0 ..< length h0 + length o1], m1) =
           Inr (h0 @ objs', [length h0 ..< length h0 + length objs'], m')"
    using Suc.hyps(1) [of "Suc i" o1 m1] Suc.hyps(2) lt after by simp
  then show ?case
    using lt forBodyH_bodyResult [OF valid lt b]
    by (subst mergeForH.simps) simp
qed

lemma mergeCallsitesH_refines:
  assumes "validRefs h data" and "mergeCallsites (deref h data) ms = Inr out"
  shows "mergeCallsitesH h data ms = Inr ([length h ..< length h + length out], h @ out)"
proof -
  from assms(2) obtain m' where
    "mergeFor (deref h data) ms 0 ([], Map.empty) = Inr (out, m')"
    by (auto simp: mergeCallsites_def split: sum.splits)
  from mergeForH_mergeFor [OF assms(1) _ this] show ?thesis
    by (simp add: mergeCallsitesH_def)
qed

section \<open>The guard of the callback\<close>

lemma thenCallback_frame [simp]:
  "selections (thenCallback f d ms w) = selections w"
  "pending (thenCallback f d ms w) = pending w"
  "currentHeapProfileFlamegraph (thenCallback f d ms w) = currentHeapProfileFlamegraph w"
  by (simp_all add: thenCallback_def split: option.split sum.split)

lemma worldInv_initial: "worldInv initialWorld"
  by (simp add: worldInv_def initialWorld_def)

lemma worldInv_setSelection: "worldInv w \<Longrightarrow> worldInv (setSelection s w)"
  by (cases s) (auto simp: worldInv_def setSelection_def fetchMatches_def nth_append)

lemma worldInv_run: "worldInv w \<Longrightarrow> worldInv (run w)"
  by (auto simp: worldInv_def run_def fetchMatches_def split: option.split)

lemma worldInv_settle: "worldInv w \<Longrightarrow> worldInv (settle n r ms w)"
proof -
  assume inv: "worldInv w"
  have sub: "set (take n (pending w) @ drop (Suc n) (pending w)) \<subseteq> set (pending w)"
    using set_take_subset [of n "pending w"] set_drop_subset [of "Suc n" "pending w"] by auto
  show ?thesis
  proof (cases "n < length (pending w)")
    case False
    with inv show ?thesis by (simp add: settle_def)
  next
    case True
    show ?thesis
      using inv sub True
      by (cases "cached (pending w ! n)")
         (auto simp: worldInv_def settle_def fetchMatches_def Let_def)
  qed
qed

lemma worldInv_step: "worldInv w \<Longrightarrow> worldInv (step w e)"
  by (cases e) (simp_all add: worldInv_setSelection worldInv_run worldInv_settle)

lemma worldInv_foldl: "worldInv w \<Longrightarrow> worldInv (foldl step w es)"
  by (induction es arbitrary: w) (simp_all add: worldInv_step)

lemma worldInv_runEvents: "worldInv (runEvents es)"
  unfolding runEvents_def by (rule worldInv_foldl [OF worldInv_initial])

text \<open>The guard of the callback never rejects: whatever the selection is by then.\<close>

lemma settle_publishes:
  assumes "n < length (pending (runEvents es))"
    and "cached (pending (runEvents es) ! n) = None"
    and "mergeCallsites d ms = Inr merged"
  shows "published (settle n (Some d) ms (runEvents es))
           = published (runEvents es) @ [Flamegraph merged]"
proof -
  let ?w = "runEvents es"
  have "fetchMatches ?w (pending ?w ! n)"
    using worldInv_runEvents [of es] assms(1) by (simp add: worldInv_def)
  then show ?thesis
    using assms by (simp add: settle_def thenCallback_def fetchMatches_def Let_def)
qed

section \<open>Evaluation of the loops on a given array\<close>

lemmas run_simps =
  mergeCallsites_def finalRedirects_def survivors_def mergeFor.simps forBody_def
  mergeWhile.simps elemAt_def getCallsitesParentHash_def site_def jsAdd_exact

lemmas rounding_simps = jsAdd_def roundDouble_def roundNearestEven_def ulp.simps Let_def

lemmas world_simps = runEvents_def staleTrace_def initialWorld_def setSelection_def run_def
  settle_def thenCallback_def selectionA_def selectionB_def activeSelection_def

section \<open>The claims\<close>

text \<open>
  C9. Empty input: for every threshold, \<open>mergeCallsites\<close> applied to the empty array
  returns the empty array, without error.
\<close>

theorem mergeCallsites_empty: "mergeCallsites [] minSizeDisplayed = Inr []"
  by (simp add: mergeCallsites_def mergeFor.simps)

text \<open>
  C8. Totality of the forward scan: for every array and threshold \<open>mergeCallsites\<close>
  returns a result and no error. The element peeked at \<open>j = data.length\<close> is
  \<open>undefined\<close>, and the \<open>while\<close> loop entered in that state returns without reading
  a property of it.
\<close>

theorem mergeCallsites_total:
  "(\<exists>mergedData. mergeCallsites data minSizeDisplayed = Inr mergedData)
   \<and> elemAt data (length data) = None
   \<and> mergeWhile data minSizeDisplayed (length data) None c m = Inr (c, m)"
proof -
  have "mergeCallsites data minSizeDisplayed = Inr (fst (mergeRest minSizeDisplayed Map.empty data))"
    by (rule mergeCallsites_mergeRest)
  moreover have "elemAt data (length data) = None"
    by (simp add: elemAt_def)
  moreover have "mergeWhile data minSizeDisplayed (length data) None c m = Inr (c, m)"
    by (subst mergeWhile.simps) simp
  ultimately show ?thesis by blast
qed

text \<open>
  C6, as stated, fails when two records share a hash: in \<open>repeatedHash\<close> the first
  record is emitted, and the third one, merged into the second, enters the shared hash 1
  as a key later. Two nodes are emitted, but only one record has a hash that never became
  a key.
\<close>

theorem survivors_repeatedHash_counterexample:
  "mergeCallsites repeatedHash 2 = Inr [site 1 7 0 5, site 2 7 0 2]
   \<and> survivors repeatedHash 2 = [site 2 7 0 1]"
  by (simp add: run_simps repeatedHash_def)

text \<open>
  C6, amended. Survivor order and emission: for every input whose hashes are unique per
  record, and every threshold, the output of \<open>mergeCallsites\<close> has exactly one node per
  input record whose hash was never entered as a key of the redirect map, with that
  record's hash and in the order of those records in the input; a redirected record is
  never emitted as a node of its own.
\<close>

theorem mergeCallsites_survivors:
  assumes "distinctHashes data"
  shows "\<exists>mergedData. mergeCallsites data minSizeDisplayed = Inr mergedData
           \<and> map hash mergedData = map hash (survivors data minSizeDisplayed)"
proof -
  have "map hash (fst (mergeRest minSizeDisplayed Map.empty data)) =
          map hash (survivors data minSizeDisplayed)"
    unfolding survivors_def finalRedirects_mergeRest
    using assms by (intro mergeRest_survivors) (simp add: distinctHashes_def)
  then show ?thesis
    by (simp add: mergeCallsites_mergeRest)
qed

theorem mergeCallsites_survivors_witness:
  "distinctHashes scenario2
   \<and> (\<exists>mergedData. mergeCallsites scenario2 2 = Inr mergedData
          \<and> map hash mergedData = map hash (survivors scenario2 2))
   \<and> mergeCallsites scenario2 2 = Inr [site 1 0 1 5, site 2 0 1 2]
   \<and> survivors scenario2 2 = [site 1 0 1 5, site 2 0 1 1]"
proof -
  have d: "distinctHashes scenario2"
    by (simp add: distinctHashes_def scenario2_def site_def)
  have "mergeCallsites scenario2 2 = Inr [site 1 0 1 5, site 2 0 1 2]"
    by (simp add: run_simps scenario2_def)
  moreover have "survivors scenario2 2 = [site 1 0 1 5, site 2 0 1 1]"
    by (simp add: run_simps scenario2_def)
  ultimately show ?thesis
    using d mergeCallsites_survivors [OF d, of 2] by simp
qed

text \<open>
  C5. Idempotence under re-merge: a sequence in which every node is larger than the
  threshold, or is the only node of its depth and parent hash, is returned as it is by
  \<open>mergeCallsites\<close> with the same threshold.
\<close>

theorem mergeCallsites_idempotent:
  assumes "thresholdSatisfying minSizeDisplayed data"
  shows "mergeCallsites data minSizeDisplayed = Inr data"
  using mergeRest_nothing_merges [OF assms] by (simp add: mergeCallsites_mergeRest)

theorem mergeCallsites_idempotent_witness:
  "thresholdSatisfying 2 mergedExample \<and> mergeCallsites mergedExample 2 = Inr mergedExample"
proof -
  have t: "thresholdSatisfying 2 mergedExample"
    by (simp add: thresholdSatisfying_def mergedExample_def site_def lessThan_Suc)
  show ?thesis
    using t mergeCallsites_idempotent [OF t] by simp
qed

text \<open>
  C4, as stated, fails when the parent of a node is merged after the node is emitted: in
  \<open>parentMergedLater\<close> node 10 is pushed with the parent hash 2 it came with, and
  then record 2 is merged into record 1. The parent of node 10 has been merged into the
  representative 1, and the node still carries 2.
\<close>

theorem resolution_parentMergedLater_counterexample:
  "mergeCallsites parentMergedLater 2 = Inr [site 10 2 0 100, site 1 (-1) 0 2]
   \<and> parentHash (parentMergedLater ! 0) = 2
   \<and> finalRedirects parentMergedLater 2 2 = Some 1
   \<and> parentHash ([site 10 2 0 100, site 1 (-1) 0 2] ! 0) = 2"
  by (simp add: run_simps parentMergedLater_def)

text \<open>
  C4, amended. Effective-parent resolution: for every input whose depths never decrease
  and in which every record whose hash is some record's \<open>parentHash\<close> lies at a
  smaller depth than that record, and for every threshold, each node of the output is the
  copy of an input record \<open>data[i]\<close>, pushed by the iteration at \<open>i\<close>; its
  \<open>parentHash\<close> is the image of the record's \<open>parentHash\<close> in the redirect map
  when the parent was merged into a representative, and the record's own
  \<open>parentHash\<close> otherwise, in particular when it is the hash of no record of the input.
\<close>

theorem emitted_parentHash_final:
  assumes "sortedByDepth data" and "parentsShallower data"
    and "mergeCallsites data minSizeDisplayed = Inr mergedData" and "k < length mergedData"
  shows "\<exists>i mergedSoFar mergedCallsites.
           i < length data
           \<and> stateAt data minSizeDisplayed i = Inr (mergedSoFar, mergedCallsites)
           \<and> length mergedSoFar = k
           \<and> mergedCallsites (hash (data ! i)) = None
           \<and> hash (mergedData ! k) = hash (data ! i)
           \<and> parentHash (mergedData ! k) =
               (case finalRedirects data minSizeDisplayed (parentHash (data ! i)) of
                  Some h \<Rightarrow> h
                | None \<Rightarrow> parentHash (data ! i))
           \<and> (parentHash (data ! i) \<notin> hash ` set data
                \<longrightarrow> parentHash (mergedData ! k) = parentHash (data ! i))"
proof -
  let ?ms = minSizeDisplayed
  from mergeCallsites_emitted [OF assms(3,4)] obtain i out m where
    e: "i < length data" "stateAt data ?ms i = Inr (out, m)" "length out = k"
       "m (hash (data ! i)) = None" "hash (mergedData ! k) = hash (data ! i)"
       "parentHash (mergedData ! k) = getCallsitesParentHash (data ! i) m"
       "dom m \<subseteq> hash ` set data"
    unfolding emittedAt_def by blast
  let ?x = "data ! i"
  let ?xs = "drop (Suc i) data"
  have rest: "drop i data = ?x # ?xs"
    by (rule elemAt_drop [OF e(1)])
  have final: "finalRedirects data ?ms = snd (mergeRest ?ms m (?x # ?xs))"
    using finalRedirects_stateAt [OF _ e(2)] e(1) rest by simp
  have "sorted (map depth (drop i data))"
    using assms(1) by (simp add: sortedByDepth_def drop_map [symmetric])
  then have s: "sorted (map depth (?x # ?xs))"
    by (simp add: rest)
  have "set (?x # ?xs) \<subseteq> set data"
    unfolding rest [symmetric] by (rule set_drop_subset)
  then have t: "parentsShallower (?x # ?xs)"
    using assms(2) unfolding parentsShallower_def by blast
  have stable: "getCallsitesParentHash ?x (finalRedirects data ?ms) = getCallsitesParentHash ?x m"
    unfolding final by (rule parent_stable [OF s t]) simp_all
  have "getCallsitesParentHash ?x (finalRedirects data ?ms) =
      (case finalRedirects data ?ms (parentHash ?x) of Some h \<Rightarrow> h | None \<Rightarrow> parentHash ?x)"
    by (simp add: getCallsitesParentHash_def split: option.split)
  with stable e(6) have resolved: "parentHash (mergedData ! k) =
      (case finalRedirects data ?ms (parentHash ?x) of Some h \<Rightarrow> h | None \<Rightarrow> parentHash ?x)"
    by simp
  have dangling: "parentHash (mergedData ! k) = parentHash ?x"
    if "parentHash ?x \<notin> hash ` set data"
  proof -
    from that e(7) have "m (parentHash ?x) = None"
      by (auto simp: domIff)
    with e(6) show ?thesis
      by (simp add: getCallsitesParentHash_def)
  qed
  from e(1-5) resolved dangling show ?thesis
    by blast
qed

theorem emitted_parentHash_final_witness:
  "sortedByDepth scenario5 \<and> parentsShallower scenario5
   \<and> mergeCallsites scenario5 2 = Inr scenario5Merged
   \<and> (3::nat) < length scenario5Merged
   \<and> (\<exists>i mergedSoFar mergedCallsites.
           i < length scenario5
           \<and> stateAt scenario5 2 i = Inr (mergedSoFar, mergedCallsites)
           \<and> length mergedSoFar = 3
           \<and> mergedCallsites (hash (scenario5 ! i)) = None
           \<and> hash (scenario5Merged ! 3) = hash (scenario5 ! i)
           \<and> parentHash (scenario5Merged ! 3) =
               (case finalRedirects scenario5 2 (parentHash (scenario5 ! i)) of
                  Some h \<Rightarrow> h
                | None \<Rightarrow> parentHash (scenario5 ! i))
           \<and> (parentHash (scenario5 ! i) \<notin> hash ` set scenario5
                \<longrightarrow> parentHash (scenario5Merged ! 3) = parentHash (scenario5 ! i)))
   \<and> parentHash (scenario5 ! 5) = 2
   \<and> finalRedirects scenario5 2 2 = Some 1
   \<and> parentHash (scenario5Merged ! 3) = 1"
proof -
  have s: "sortedByDepth scenario5"
    by (simp add: sortedByDepth_def scenario5_def site_def)
  have t: "parentsShallower scenario5"
    by (simp add: parentsShallower_def scenario5_def site_def)
  have run: "mergeCallsites scenario5 2 = Inr scenario5Merged"
    by (simp add: run_simps scenario5_def scenario5Merged_def)
  have k: "(3::nat) < length scenario5Merged"
    by (simp add: scenario5Merged_def)
  have "parentHash (scenario5 ! 5) = 2" "parentHash (scenario5Merged ! 3) = 1"
    by (simp_all add: scenario5_def scenario5Merged_def site_def)
  moreover have "finalRedirects scenario5 2 2 = Some 1"
    by (simp add: run_simps scenario5_def)
  ultimately show ?thesis
    using s t run k emitted_parentHash_final [OF s t run k] by blast
qed

text \<open>
  C1, as stated, fails in two ways. When the parent of a record lies at the record's own
  depth: in \<open>sameDepthParents\<close> the hashes are unique, record 5 is merged into
  record 1, then record 4 into record 2, which redirects the parent of record 3 to 2, and
  record 5 is merged a second time, into record 3; the sizes of the output add up to 6,
  those of the input to 5. And when a sum of sizes is no double: in \<open>roundedSum\<close> the
  sizes \<open>2 ^ 53\<close> and 1 are merged, and line 59 rounds their sum to \<open>2 ^ 53\<close>.
\<close>

theorem conservation_sameDepthParents_counterexample:
  "distinctHashes sameDepthParents \<and> exactlyAddable sameDepthParents
   \<and> mergeCallsites sameDepthParents 10
       = Inr [site 1 2 0 2, site 2 (-1) 0 2, site 3 2 0 2]
   \<and> sum_list (map totalSize [site 1 2 0 2, site 2 (-1) 0 2, site 3 2 0 2]) = 6
   \<and> sum_list (map totalSize sameDepthParents) = 5
   \<and> distinctHashes roundedSum \<and> noParentAtSameDepth roundedSum
   \<and> mergeCallsites roundedSum 9007199254740992 = Inr [site 1 0 1 9007199254740992]
   \<and> sum_list (map totalSize [site 1 0 1 9007199254740992]) = 9007199254740992
   \<and> sum_list (map totalSize roundedSum) = 9007199254740993"
  by (simp add: run_simps rounding_simps sameDepthParents_def roundedSum_def
        distinctHashes_def noParentAtSameDepth_def exactlyAddable_def)

text \<open>
  C1, amended. Size conservation: for every input whose hashes are unique per record, in
  which no record's \<open>parentHash\<close> is the hash of a record of the same depth, and whose
  sizes add up, in absolute value, to at most \<open>2 ^ 53\<close>, and for every threshold, the
  sizes of the output of \<open>mergeCallsites\<close> add up to the sum of the sizes of the input.
\<close>

theorem mergeCallsites_conserves:
  assumes "distinctHashes data" and "noParentAtSameDepth data" and "exactlyAddable data"
  shows "\<exists>mergedData. mergeCallsites data minSizeDisplayed = Inr mergedData
           \<and> sum_list (map totalSize mergedData) = sum_list (map totalSize data)"
proof -
  from assms have "distinct (map hash data)"
    by (simp add: distinctHashes_def)
  moreover from assms(3) have "sum_list (map (\<lambda>x. \<bar>totalSize x\<bar>) data) \<le> 9007199254740992"
    by (simp add: exactlyAddable_def)
  ultimately show ?thesis
    using mergeRest_conserves [OF _ assms(2) scanInv_empty, of minSizeDisplayed]
    by (simp add: mergeCallsites_mergeRest)
qed


theorem mergeCallsites_conserves_witness:
  "distinctHashes scenario5 \<and> noParentAtSameDepth scenario5 \<and> exactlyAddable scenario5
   \<and> (\<exists>mergedData. mergeCallsites scenario5 2 = Inr mergedData
          \<and> sum_list (map totalSize mergedData) = sum_list (map totalSize scenario5))
   \<and> mergeCallsites scenario5 2 = Inr scenario5Merged
   \<and> sum_list (map totalSize scenario5Merged) = 21"
proof -
  have d: "distinctHashes scenario5"
    by (simp add: distinctHashes_def scenario5_def site_def)
  have n: "noParentAtSameDepth scenario5"
    by (simp add: noParentAtSameDepth_def scenario5_def site_def)
  have e: "exactlyAddable scenario5"
    by (simp add: exactlyAddable_def scenario5_def site_def)
  have "mergeCallsites scenario5 2 = Inr scenario5Merged"
    by (simp add: run_simps scenario5_def scenario5Merged_def)
  moreover have "sum_list (map totalSize scenario5Merged) = 21"
    by (simp add: scenario5Merged_def site_def)
  ultimately show ?thesis
    using d n e mergeCallsites_conserves [OF d n e, of 2] by simp
qed

text \<open>
  C2, as stated, fails when parents lie at the depth of their children. In
  \<open>sameDepthCycle\<close> the depths are sorted and the hashes unique. Record 4 is merged
  into record 2 after record 1 has been emitted, which makes 2 the effective parent of
  record 3. Records 1 and 3 then have equal depth, equal effective parent 2 and are both
  small, yet each is an output node of its own.
\<close>

theorem grouping_sameDepthCycle_counterexample:
  "sortedByDepth sameDepthCycle \<and> distinctHashes sameDepthCycle
   \<and> mergeCallsites sameDepthCycle 2
       = Inr [site 1 2 0 1, site 2 3 0 2, site 3 2 0 1]
   \<and> representative sameDepthCycle 2 (sameDepthCycle ! 0) = 1
   \<and> representative sameDepthCycle 2 (sameDepthCycle ! 3) = 3
   \<and> depth (sameDepthCycle ! 0) = depth (sameDepthCycle ! 3)
   \<and> getCallsitesParentHash (sameDepthCycle ! 0) (finalRedirects sameDepthCycle 2) = 2
   \<and> getCallsitesParentHash (sameDepthCycle ! 3) (finalRedirects sameDepthCycle 2) = 2
   \<and> small 2 (sameDepthCycle ! 0) \<and> small 2 (sameDepthCycle ! 3)"
  by (simp add: run_simps representative_def sameDepthCycle_def sortedByDepth_def
        distinctHashes_def)

text \<open>
  C2, amended. Grouping correctness: for every input whose depths never decrease, whose
  hashes are unique and in which every record whose hash is some record's
  \<open>parentHash\<close> lies at a smaller depth than that record, and for every threshold, two
  input records are folded into the same output node if and only if they have equal
  depth, equal effective parent hash (resolved through the redirect map) and each has
  \<open>totalSize \<le> minSizeDisplayed\<close>.
\<close>

theorem folded_together_iff:
  assumes sorted: "sortedByDepth data" and dist: "distinctHashes data"
    and tree: "parentsShallower data"
    and ij: "i < j" and j: "j < length data"
  shows "representative data minSizeDisplayed (data ! i)
           = representative data minSizeDisplayed (data ! j)
         \<longleftrightarrow>
         depth (data ! i) = depth (data ! j)
         \<and> getCallsitesParentHash (data ! i) (finalRedirects data minSizeDisplayed)
             = getCallsitesParentHash (data ! j) (finalRedirects data minSizeDisplayed)
         \<and> small minSizeDisplayed (data ! i) \<and> small minSizeDisplayed (data ! j)"
proof -
  let ?ms = minSizeDisplayed
  let ?mf = "snd (mergeRest ?ms Map.empty data)"
  have s: "sorted (map depth data)" and d: "distinct (map hash data)"
    using sorted dist by (simp_all add: sortedByDepth_def distinctHashes_def)
  have i: "i < length data" using ij j by simp
  note inv = scanInv_empty [of ?ms data]
  have from_group: "\<exists>r < k. hash (data ! r) = h \<and> ?mf (hash (data ! r)) = None
           \<and> depth (data ! r) = depth (data ! k) \<and> small ?ms (data ! r) \<and> small ?ms (data ! k)
           \<and> getCallsitesParentHash (data ! r) ?mf = getCallsitesParentHash (data ! k) ?mf"
    if "k < length data" "?mf (hash (data ! k)) = Some h" for k h
    using merged_from_group [OF s d tree inv that] by simp
  have merged: "?mf (hash (data ! k)) = Some (hash (data ! r))"
    if "r < k" "k < length data" "?mf (hash (data ! r)) = None"
       "depth (data ! r) = depth (data ! k)" "small ?ms (data ! r)" "small ?ms (data ! k)"
       "getCallsitesParentHash (data ! r) ?mf = getCallsitesParentHash (data ! k) ?mf" for r k
    using same_group_merged [OF s d tree inv that] .
  have goal: "(case ?mf (hash (data ! i)) of Some r \<Rightarrow> r | None \<Rightarrow> hash (data ! i))
           = (case ?mf (hash (data ! j)) of Some r \<Rightarrow> r | None \<Rightarrow> hash (data ! j))
         \<longleftrightarrow>
         depth (data ! i) = depth (data ! j)
         \<and> getCallsitesParentHash (data ! i) ?mf = getCallsitesParentHash (data ! j) ?mf
         \<and> small ?ms (data ! i) \<and> small ?ms (data ! j)" (is "?L \<longleftrightarrow> ?R")
  proof
    assume R: ?R
    show ?L
    proof (cases "?mf (hash (data ! i))")
      case None
      from merged [OF ij j None] R have "?mf (hash (data ! j)) = Some (hash (data ! i))"
        by simp
      with None show ?thesis by simp
    next
      case (Some h)
      from from_group [OF i Some] obtain r where r: "r < i" "hash (data ! r) = h"
        "?mf (hash (data ! r)) = None" "depth (data ! r) = depth (data ! i)"
        "small ?ms (data ! r)"
        "getCallsitesParentHash (data ! r) ?mf = getCallsitesParentHash (data ! i) ?mf"
        by blast
      have "r < j" using r(1) ij by simp
      from merged [OF this j r(3)] r R have "?mf (hash (data ! j)) = Some h"
        by simp
      with Some show ?thesis by simp
    qed
  next
    assume L: ?L
    show ?R
    proof (cases "?mf (hash (data ! i))")
      case None
      show ?thesis
      proof (cases "?mf (hash (data ! j))")
        case none: None
        with None L have "hash (data ! i) = hash (data ! j)" by simp
        from hash_index [OF d i j this] ij show ?thesis by simp
      next
        case (Some h)
        with None L have h: "h = hash (data ! i)" by simp
        from from_group [OF j Some] obtain r where r: "r < j" "hash (data ! r) = h"
          "depth (data ! r) = depth (data ! j)" "small ?ms (data ! r)" "small ?ms (data ! j)"
          "getCallsitesParentHash (data ! r) ?mf = getCallsitesParentHash (data ! j) ?mf"
          by blast
        have "r = i"
          by (rule hash_index [OF d _ i]) (use r(1,2) j h in simp_all)
        with r show ?thesis by simp
      qed
    next
      case (Some h)
      from from_group [OF i Some] obtain r where r: "r < i" "hash (data ! r) = h"
        "?mf (hash (data ! r)) = None" "depth (data ! r) = depth (data ! i)"
        "small ?ms (data ! r)" "small ?ms (data ! i)"
        "getCallsitesParentHash (data ! r) ?mf = getCallsitesParentHash (data ! i) ?mf"
        by blast
      show ?thesis
      proof (cases "?mf (hash (data ! j))")
        case None
        with Some L have "hash (data ! j) = hash (data ! r)" using r(2) by simp
        from hash_index [OF d j _ this] r(1) i ij show ?thesis by simp
      next
        case some: (Some h')
        with Some L have "h' = h" by simp
        with from_group [OF j some] obtain r' where r': "r' < j" "hash (data ! r') = h"
          "depth (data ! r') = depth (data ! j)" "small ?ms (data ! j)"
          "getCallsitesParentHash (data ! r') ?mf = getCallsitesParentHash (data ! j) ?mf"
          by blast
        have "r' = r"
          by (rule hash_index [OF d]) (use r' r j i in simp_all)
        with r r' show ?thesis by simp
      qed
    qed
  qed
  show ?thesis
    unfolding representative_def finalRedirects_mergeRest by (rule goal)
qed


theorem folded_together_iff_witness:
  "sortedByDepth scenario5 \<and> distinctHashes scenario5 \<and> parentsShallower scenario5
   \<and> (3::nat) < 4 \<and> 4 < length scenario5
   \<and> (representative scenario5 2 (scenario5 ! 3) = representative scenario5 2 (scenario5 ! 4)
        \<longleftrightarrow>
        depth (scenario5 ! 3) = depth (scenario5 ! 4)
        \<and> getCallsitesParentHash (scenario5 ! 3) (finalRedirects scenario5 2)
            = getCallsitesParentHash (scenario5 ! 4) (finalRedirects scenario5 2)
        \<and> small 2 (scenario5 ! 3) \<and> small 2 (scenario5 ! 4))
   \<and> representative scenario5 2 (scenario5 ! 4) = 3
   \<and> parentHash (scenario5 ! 4) = 2
   \<and> getCallsitesParentHash (scenario5 ! 4) (finalRedirects scenario5 2) = 1"
proof -
  have s: "sortedByDepth scenario5"
    by (simp add: sortedByDepth_def scenario5_def site_def)
  have d: "distinctHashes scenario5"
    by (simp add: distinctHashes_def scenario5_def site_def)
  have t: "parentsShallower scenario5"
    by (simp add: parentsShallower_def scenario5_def site_def)
  have i: "(3::nat) < 4" by simp
  have j: "4 < length scenario5" by (simp add: scenario5_def)
  have "representative scenario5 2 (scenario5 ! 4) = 3"
    by (simp add: run_simps representative_def scenario5_def)
  moreover have "parentHash (scenario5 ! 4) = 2"
    by (simp add: scenario5_def site_def)
  moreover have "getCallsitesParentHash (scenario5 ! 4) (finalRedirects scenario5 2) = 1"
    by (simp add: run_simps scenario5_def)
  ultimately show ?thesis
    using s d t i j folded_together_iff [OF s d t i j, of 2] by blast
qed

text \<open>
  C3, as stated, fails in Scenario 2 of the specification: the two siblings of size 1 are
  merged into a node of size 2, which does not exceed the threshold 2 and shares its depth
  and parent with the node of size 5. It also fails in \<open>sameDepthCycle\<close>, where the
  first and the last node of the output are small and share depth 0 and parent 2.
\<close>

theorem threshold_scenario2_counterexample:
  "sortedByDepth scenario2 \<and> distinctHashes scenario2
   \<and> mergeCallsites scenario2 2 = Inr [site 1 0 1 5, site 2 0 1 2]
   \<and> \<not> (2::rat) < of_int (totalSize (site 2 0 1 2))
   \<and> depth (site 1 0 1 5) = depth (site 2 0 1 2)
   \<and> parentHash (site 1 0 1 5) = parentHash (site 2 0 1 2)
   \<and> sortedByDepth sameDepthCycle \<and> distinctHashes sameDepthCycle
   \<and> mergeCallsites sameDepthCycle 2
       = Inr [site 1 2 0 1, site 2 3 0 2, site 3 2 0 1]"
  by (simp add: run_simps scenario2_def sameDepthCycle_def sortedByDepth_def
        distinctHashes_def)

text \<open>
  C3, amended. Threshold property: for every input whose depths never decrease and in
  which every record whose hash is some record's \<open>parentHash\<close> lies at a smaller depth
  than that record, and for every threshold, every node of the output of
  \<open>mergeCallsites\<close> has \<open>totalSize\<close> greater than the threshold, or else every other
  node of the output with its depth and parent hash has: a group keeps at most one node
  that is not above the threshold.
\<close>

theorem at_most_one_small_per_group:
  assumes "sortedByDepth data" and "parentsShallower data"
    and "mergeCallsites data minSizeDisplayed = Inr mergedData"
    and "a < length mergedData"
  shows "minSizeDisplayed < of_int (totalSize (mergedData ! a))
         \<or> (\<forall>b < length mergedData.
               b \<noteq> a \<and> depth (mergedData ! b) = depth (mergedData ! a)
               \<and> parentHash (mergedData ! b) = parentHash (mergedData ! a)
               \<longrightarrow> minSizeDisplayed < of_int (totalSize (mergedData ! b)))"
proof (cases "small minSizeDisplayed (mergedData ! a)")
  case False
  then show ?thesis by simp
next
  case True
  have s: "sorted (map depth data)"
    using assms(1) by (simp add: sortedByDepth_def)
  have out: "mergedData = fst (mergeRest minSizeDisplayed Map.empty data)"
    using assms(3) by (simp add: mergeCallsites_mergeRest)
  have "minSizeDisplayed < of_int (totalSize (mergedData ! b))"
    if b: "b < length mergedData" "b \<noteq> a" "depth (mergedData ! b) = depth (mergedData ! a)"
      "parentHash (mergedData ! b) = parentHash (mergedData ! a)" for b
  proof (cases "a < b")
    case True
    from one_small_per_group [OF s assms(2) True, of minSizeDisplayed Map.empty]
      b \<open>small minSizeDisplayed (mergedData ! a)\<close>
    show ?thesis unfolding out by auto
  next
    case False
    with b(2) have "b < a" by simp
    from one_small_per_group [OF s assms(2) this, of minSizeDisplayed Map.empty]
      b assms(4) \<open>small minSizeDisplayed (mergedData ! a)\<close>
    show ?thesis unfolding out by auto
  qed
  then show ?thesis by blast
qed

theorem at_most_one_small_per_group_witness:
  "sortedByDepth scenario2 \<and> parentsShallower scenario2
   \<and> mergeCallsites scenario2 2 = Inr [site 1 0 1 5, site 2 0 1 2]
   \<and> (1::nat) < length [site 1 0 1 5, site 2 0 1 2]
   \<and> (2 < (of_int (totalSize ([site 1 0 1 5, site 2 0 1 2] ! 1)) :: rat)
        \<or> (\<forall>b < length [site 1 0 1 5, site 2 0 1 2].
              b \<noteq> 1 \<and> depth ([site 1 0 1 5, site 2 0 1 2] ! b)
                         = depth ([site 1 0 1 5, site 2 0 1 2] ! 1)
              \<and> parentHash ([site 1 0 1 5, site 2 0 1 2] ! b)
                  = parentHash ([site 1 0 1 5, site 2 0 1 2] ! 1)
              \<longrightarrow> 2 < (of_int (totalSize ([site 1 0 1 5, site 2 0 1 2] ! b)) :: rat)))"
proof -
  have s: "sortedByDepth scenario2"
    by (simp add: sortedByDepth_def scenario2_def site_def)
  have t: "parentsShallower scenario2"
    by (simp add: parentsShallower_def scenario2_def site_def)
  have run: "mergeCallsites scenario2 2 = Inr [site 1 0 1 5, site 2 0 1 2]"
    by (simp add: run_simps scenario2_def)
  have a: "(1::nat) < length [site 1 0 1 5, site 2 0 1 2]" by simp
  show ?thesis
    using s t run a at_most_one_small_per_group [OF s t run a] by blast
qed

text \<open>
  C7. Purity and field frame, on the store: \<open>mergeCallsites\<close> leaves every object of
  the store it is given as it was, so no input record is modified; the nodes of the output
  are new objects, pairwise different; each has the \<open>hash\<close>, \<open>depth\<close> and
  \<open>name\<close> of an input record, so no node changes depth; and the records of the output
  are those the function computes on the records of the input.
\<close>

theorem mergeCallsitesH_frame:
  assumes "validRefs heap data"
  shows "\<exists>mergedData heap'.
           mergeCallsitesH heap data minSizeDisplayed = Inr (mergedData, heap')
           \<and> take (length heap) heap' = heap
           \<and> distinct mergedData
           \<and> (\<forall>r \<in> set mergedData. length heap \<le> r \<and> r < length heap')
           \<and> (\<forall>k < length mergedData. \<exists>i < length data.
                  hash (heap' ! (mergedData ! k)) = hash (heap ! (data ! i))
                  \<and> depth (heap' ! (mergedData ! k)) = depth (heap ! (data ! i))
                  \<and> name (heap' ! (mergedData ! k)) = name (heap ! (data ! i)))
           \<and> mergeCallsites (deref heap data) minSizeDisplayed = Inr (deref heap' mergedData)"
proof -
  let ?ms = minSizeDisplayed
  obtain out where out: "mergeCallsites (deref heap data) ?ms = Inr out"
    by (auto simp: mergeCallsites_mergeRest)
  let ?md = "[length heap ..< length heap + length out]"
  let ?h' = "heap @ out"
  have run: "mergeCallsitesH heap data ?ms = Inr (?md, ?h')"
    by (rule mergeCallsitesH_refines [OF assms out])
  have nth: "?h' ! (?md ! k) = out ! k" if "k < length out" for k
    using that by (simp add: nth_append)
  have vals: "deref ?h' ?md = out"
    by (rule nth_equalityI) (simp_all add: deref_def nth_append)
  have copies: "\<exists>i < length data.
                  hash (?h' ! (?md ! k)) = hash (heap ! (data ! i))
                  \<and> depth (?h' ! (?md ! k)) = depth (heap ! (data ! i))
                  \<and> name (?h' ! (?md ! k)) = name (heap ! (data ! i))"
    if k: "k < length ?md" for k
  proof -
    from k have k': "k < length out" by simp
    from mergeCallsites_emitted [OF out k'] obtain i where
      "i < length (deref heap data)" "hash (out ! k) = hash (deref heap data ! i)"
      "depth (out ! k) = depth (deref heap data ! i)" "name (out ! k) = name (deref heap data ! i)"
      unfolding emittedAt_def by blast
    then show ?thesis
      unfolding nth [OF k'] by (auto simp: deref_def)
  qed
  show ?thesis
  proof (intro exI conjI)
    show "mergeCallsitesH heap data ?ms = Inr (?md, ?h')" by (rule run)
    show "take (length heap) ?h' = heap" by simp
    show "distinct ?md" by simp
    show "\<forall>r \<in> set ?md. length heap \<le> r \<and> r < length ?h'" by simp
    show "\<forall>k < length ?md. \<exists>i < length data.
            hash (?h' ! (?md ! k)) = hash (heap ! (data ! i))
            \<and> depth (?h' ! (?md ! k)) = depth (heap ! (data ! i))
            \<and> name (?h' ! (?md ! k)) = name (heap ! (data ! i))"
      by (intro allI impI) (rule copies)
    show "mergeCallsites (deref heap data) ?ms = Inr (deref ?h' ?md)"
      unfolding vals by (rule out)
  qed
qed

theorem mergeCallsitesH_frame_witness:
  "validRefs scenario2Store [0, 1, 2]
   \<and> mergeCallsitesH scenario2Store [0, 1, 2] 2
       = Inr ([4, 5], scenario2Store @ [site 1 0 1 5, site 2 0 1 2])
   \<and> (\<exists>mergedData heap'.
           mergeCallsitesH scenario2Store [0, 1, 2] 2 = Inr (mergedData, heap')
           \<and> take (length scenario2Store) heap' = scenario2Store
           \<and> distinct mergedData
           \<and> (\<forall>r \<in> set mergedData. length scenario2Store \<le> r \<and> r < length heap')
           \<and> (\<forall>k < length mergedData. \<exists>i < length [0::nat, 1, 2].
                  hash (heap' ! (mergedData ! k)) = hash (scenario2Store ! ([0, 1, 2] ! i))
                  \<and> depth (heap' ! (mergedData ! k)) = depth (scenario2Store ! ([0, 1, 2] ! i))
                  \<and> name (heap' ! (mergedData ! k)) = name (scenario2Store ! ([0, 1, 2] ! i)))
           \<and> mergeCallsites (deref scenario2Store [0, 1, 2]) 2 = Inr (deref heap' mergedData))"
proof -
  have v: "validRefs scenario2Store [0, 1, 2]"
    by (simp add: validRefs_def scenario2Store_def scenario2_def)
  have "mergeCallsitesH scenario2Store [0, 1, 2] 2
          = Inr ([4, 5], scenario2Store @ [site 1 0 1 5, site 2 0 1 2])"
    by (simp add: mergeCallsitesH_def mergeForH.simps forBodyH_def mergeWhileH.simps
          copyCallsiteH_def elemAt_def getCallsitesParentHash_def site_def
          scenario2Store_def scenario2_def Let_def jsAdd_exact)
  with v mergeCallsitesH_frame [OF v, of 2] show ?thesis
    by simp
qed

text \<open>
  C10. Staleness discipline. The claim is that a result is published only if the active
  selection at completion still is the one the fetch was issued for. In \<open>staleTrace\<close>
  it is not so: after the first four events the fetches for A and for B are pending and B
  is the active selection; when the fetch for A settles, its flamegraph is published
  although B is still active. By \<open>settle_publishes\<close> the guard of the callback never
  rejects a defined result, since it compares the captured object with values copied from
  that same object.
\<close>

theorem stale_result_published:
  "published (runEvents (take 4 staleTrace)) = [EmptyData, EmptyData]
   \<and> map selectedId (pending (runEvents (take 4 staleTrace))) = [1, 2]
   \<and> activeSelection (runEvents (take 4 staleTrace)) = Some selectionB
   \<and> published (runEvents staleTrace)
       = [EmptyData, EmptyData, Flamegraph [site 1 0 1 5, site 2 0 1 2]]
   \<and> map selectedId (pending (runEvents staleTrace)) = [2]
   \<and> activeSelection (runEvents staleTrace) = Some selectionB
   \<and> selId selectionB \<noteq> selId selectionA"
  by (simp add: world_simps run_simps scenario2_def Let_def)

end
